theory Spec2Isabelle
  imports Main "HOL-Library.Word"
begin

section \<open>The singly linked list of \<^verbatim>\<open>linked_list.c\<close>\<close>

subsection \<open>Machine types\<close>

text \<open>
  The library is modelled on an LP64 platform: pointers and \<^verbatim>\<open>size_t\<close> are 64-bit
  words, \<^verbatim>\<open>unsigned int\<close> is a 32-bit word. A pointer is the address it holds; the
  null pointer is the address 0, so that \<^verbatim>\<open>if(!p)\<close> is the test \<open>p = 0\<close>.
\<close>

type_synonym ptr = "64 word"
type_synonym size_t = "64 word"
type_synonym uint = "32 word"

definition SIZE_MAX :: size_t where
  "SIZE_MAX = - 1"

subsection \<open>Structures and the heap\<close>

text \<open>
  The header \<^verbatim>\<open>linked_list.h\<close> is not among the sources. The three structures are
  declared here with the fields that \<^verbatim>\<open>linked_list.c\<close> reads and writes:
  \<^verbatim>\<open>node->data\<close>, \<^verbatim>\<open>node->next\<close>; \<^verbatim>\<open>ll->head\<close>, \<^verbatim>\<open>ll->size\<close>;
  \<^verbatim>\<open>it->ll\<close>, \<^verbatim>\<open>it->current_index\<close>, \<^verbatim>\<open>it->current_node\<close>, \<^verbatim>\<open>it->data\<close>.
  Field names carry the structure's name as a prefix, since \<open>next\<close> and \<open>size\<close> are
  taken and \<open>data\<close> occurs in two structures.
\<close>

record node =
  node_data :: uint
  node_next :: ptr

record linked_list =
  ll_head :: ptr
  ll_size :: size_t

record iterator =
  it_ll :: ptr
  it_current_index :: size_t
  it_current_node :: ptr
  it_data :: uint

text \<open>
  The heap maps the addresses of live objects to their contents, one map for each
  structure type. An address outside the domain of a map is not a live object of that
  type: it was never allocated, or it has been freed.
\<close>

record heap =
  nodes :: "ptr \<rightharpoonup> node"
  lists :: "ptr \<rightharpoonup> linked_list"
  iters :: "ptr \<rightharpoonup> iterator"

text \<open>
  Dereferencing a pointer that does not point to a live object is undefined behaviour
  in C. The model makes it a value: \<open>NullDeref\<close> for the null pointer (the crash of
  the program), \<open>InvalidDeref\<close> for any other address that is not live.
\<close>

datatype fault = NullDeref | InvalidDeref

definition get_node :: "heap \<Rightarrow> ptr \<Rightarrow> fault + node" where
  "get_node h p =
     (if p = 0 then Inl NullDeref
      else case nodes h p of None \<Rightarrow> Inl InvalidDeref | Some n \<Rightarrow> Inr n)"

definition get_list :: "heap \<Rightarrow> ptr \<Rightarrow> fault + linked_list" where
  "get_list h p =
     (if p = 0 then Inl NullDeref
      else case lists h p of None \<Rightarrow> Inl InvalidDeref | Some l \<Rightarrow> Inr l)"

definition get_iter :: "heap \<Rightarrow> ptr \<Rightarrow> fault + iterator" where
  "get_iter h p =
     (if p = 0 then Inl NullDeref
      else case iters h p of None \<Rightarrow> Inl InvalidDeref | Some i \<Rightarrow> Inr i)"

text \<open>The assignment \<^verbatim>\<open>p->next = v\<close>.\<close>

definition set_next :: "heap \<Rightarrow> ptr \<Rightarrow> ptr \<Rightarrow> fault + heap" where
  "set_next h p v =
     (case get_node h p of
        Inl e \<Rightarrow> Inl e
      | Inr n \<Rightarrow> Inr (h\<lparr>nodes := (nodes h)(p \<mapsto> n\<lparr>node_next := v\<rparr>)\<rparr>))"

text \<open>
  The allocator is registered by the caller (\<^verbatim>\<open>linked_list_register_malloc\<close>,
  \<^verbatim>\<open>linked_list_register_free\<close>), and every function below calls \<^verbatim>\<open>malloc_fptr\<close>
  at most once. The pointer that this call returns is a parameter \<open>m\<close> of the
  function: 0 when the allocation fails. A new node is written field by field before it
  is read, so the allocation of a node together with its two assignments is one update
  of the heap. \<^verbatim>\<open>free_fptr(p)\<close> ends the life of the node at \<open>p\<close>.
\<close>

definition new_node :: "heap \<Rightarrow> ptr \<Rightarrow> uint \<Rightarrow> ptr \<Rightarrow> heap" where
  "new_node h m d nx = h\<lparr>nodes := (nodes h)(m \<mapsto> \<lparr>node_data = d, node_next = nx\<rparr>)\<rparr>"

definition free_node :: "heap \<Rightarrow> ptr \<Rightarrow> heap" where
  "free_node h p = h\<lparr>nodes := (nodes h)(p := None)\<rparr>"

definition put_list :: "heap \<Rightarrow> ptr \<Rightarrow> linked_list \<Rightarrow> heap" where
  "put_list h p l = h\<lparr>lists := (lists h)(p \<mapsto> l)\<rparr>"

definition put_iter :: "heap \<Rightarrow> ptr \<Rightarrow> iterator \<Rightarrow> heap" where
  "put_iter h p i = h\<lparr>iters := (iters h)(p \<mapsto> i)\<rparr>"

subsection \<open>Creation and size\<close>

definition linked_list_create :: "heap \<Rightarrow> ptr \<Rightarrow> ptr \<times> heap" where
  "linked_list_create h m =
     (if m = 0 then (0, h)
      else (m, put_list h m \<lparr>ll_head = 0, ll_size = 0\<rparr>))"

definition linked_list_size :: "heap \<Rightarrow> ptr \<Rightarrow> fault + size_t" where
  "linked_list_size h ll =
     (if ll = 0 then Inr SIZE_MAX
      else case get_list h ll of Inl e \<Rightarrow> Inl e | Inr l \<Rightarrow> Inr (ll_size l))"

subsection \<open>Insertion\<close>

text \<open>
  The loop \<^verbatim>\<open>while(cur->next) cur = cur->next;\<close> of \<^verbatim>\<open>linked_list_insert_end\<close>. It
  runs forever on a cyclic chain, so its result is optional: \<open>None\<close> is the loop that
  does not return.
\<close>

partial_function (option) insert_end_loop :: "heap \<Rightarrow> ptr \<Rightarrow> (fault + ptr) option" where
  "insert_end_loop h cur =
     (case get_node h cur of
        Inl e \<Rightarrow> Some (Inl e)
      | Inr n \<Rightarrow>
          if node_next n \<noteq> 0 then insert_end_loop h (node_next n)
          else Some (Inr cur))"

definition linked_list_insert_end ::
  "heap \<Rightarrow> ptr \<Rightarrow> uint \<Rightarrow> ptr \<Rightarrow> (fault + bool \<times> heap) option" where
  "linked_list_insert_end h ll d m =
     (if ll = 0 then Some (Inr (False, h))
      else
        (case get_list h ll of
           Inl e \<Rightarrow> Some (Inl e)
         | Inr l \<Rightarrow>
             if m = 0 then Some (Inr (False, h))
             else if ll_head l = 0 then
               Some (Inr (True, put_list (new_node h m d 0) ll
                                  (l\<lparr>ll_head := m, ll_size := ll_size l + 1\<rparr>)))
             else
               (case insert_end_loop (new_node h m d 0) (ll_head l) of
                  None \<Rightarrow> None
                | Some (Inl e) \<Rightarrow> Some (Inl e)
                | Some (Inr cur) \<Rightarrow>
                    (case set_next (new_node h m d 0) cur m of
                       Inl e \<Rightarrow> Some (Inl e)
                     | Inr h2 \<Rightarrow>
                         Some (Inr (True, put_list h2 ll
                                            (l\<lparr>ll_size := ll_size l + 1\<rparr>)))))))"

definition linked_list_insert_front ::
  "heap \<Rightarrow> ptr \<Rightarrow> uint \<Rightarrow> ptr \<Rightarrow> fault + bool \<times> heap" where
  "linked_list_insert_front h ll d m =
     (if ll = 0 then Inr (False, h)
      else if m = 0 then Inr (False, h)
      else
        (case get_list h ll of
           Inl e \<Rightarrow> Inl e
         | Inr l \<Rightarrow>
             Inr (True, put_list (new_node h m d (ll_head l)) ll
                          (l\<lparr>ll_head := m, ll_size := ll_size l + 1\<rparr>))))"

text \<open>
  The loop \<^verbatim>\<open>while(cur && idx < index) { prev = cur; cur = cur->next; idx++; }\<close>,
  which \<^verbatim>\<open>linked_list_insert\<close>, \<^verbatim>\<open>linked_list_remove\<close> and
  \<^verbatim>\<open>linked_list_create_iterator\<close> (there without \<^verbatim>\<open>prev\<close>) all contain. It
  returns the final values of \<^verbatim>\<open>cur\<close>, \<^verbatim>\<open>prev\<close> and \<^verbatim>\<open>idx\<close>. The counter is
  bounded by \<^verbatim>\<open>index\<close>, so the loop always ends.
\<close>

function walk :: "heap \<Rightarrow> size_t \<Rightarrow> ptr \<Rightarrow> ptr \<Rightarrow> size_t \<Rightarrow> fault + ptr \<times> ptr \<times> size_t" where
  "walk h index cur prev idx =
     (if cur \<noteq> 0 \<and> idx < index then
        (case get_node h cur of
           Inl e \<Rightarrow> Inl e
         | Inr n \<Rightarrow> walk h index (node_next n) cur (idx + 1))
      else Inr (cur, prev, idx))"
  by pat_completeness auto
termination
proof (relation "measure (\<lambda>(h, index, cur, prev, idx). unat index - unat idx)")
  show "wf (measure (\<lambda>(h, index, cur, prev, idx). unat index - unat idx))"
    by simp
next
  fix h :: heap and index cur prev idx :: "64 word" and n :: node
  assume "cur \<noteq> 0 \<and> idx < index"
  then have "unat idx < unat index"
    by (simp add: word_less_nat_alt)
  moreover have "unat index < 2 ^ 64"
    using unsigned_less [of index, where ?'a = nat] by simp
  ultimately have "unat idx + unat (1::64 word) < 2 ^ LENGTH(64)"
    by simp
  then have "unat (idx + 1) = Suc (unat idx)"
    by (simp add: unat_add_lem [THEN iffD1])
  with \<open>unat idx < unat index\<close>
  show "((h, index, node_next n, cur, idx + 1), (h, index, cur, prev, idx))
      \<in> measure (\<lambda>(h, index, cur, prev, idx). unat index - unat idx)"
    by simp
qed

declare walk.simps [simp del]

definition linked_list_insert ::
  "heap \<Rightarrow> ptr \<Rightarrow> size_t \<Rightarrow> uint \<Rightarrow> ptr \<Rightarrow> (fault + bool \<times> heap) option" where
  "linked_list_insert h ll index d m =
     (if ll = 0 then Some (Inr (False, h))
      else
        (case get_list h ll of
           Inl e \<Rightarrow> Some (Inl e)
         | Inr l \<Rightarrow>
             if index < 0 \<or> index > ll_size l then Some (Inr (False, h))
             else if index = 0 then Some (linked_list_insert_front h ll d m)
             else if index = ll_size l then linked_list_insert_end h ll d m
             else
               (case walk h index (ll_head l) 0 0 of
                  Inl e \<Rightarrow> Some (Inl e)
                | Inr (cur, prev, idx) \<Rightarrow>
                    if m = 0 then Some (Inr (False, h))
                    else
                      (case set_next (new_node h m d cur) prev m of
                         Inl e \<Rightarrow> Some (Inl e)
                       | Inr h2 \<Rightarrow>
                           Some (Inr (True, put_list h2 ll
                                              (l\<lparr>ll_size := ll_size l + 1\<rparr>)))))))"

subsection \<open>Search\<close>

text \<open>
  The loop of \<^verbatim>\<open>linked_list_find\<close>; like the loop of \<^verbatim>\<open>linked_list_insert_end\<close>
  it follows the chain until it ends, and does not return on a cyclic chain.
\<close>

partial_function (option) find_loop ::
  "heap \<Rightarrow> uint \<Rightarrow> ptr \<Rightarrow> size_t \<Rightarrow> (fault + size_t) option" where
  "find_loop h d cur idx =
     (if cur \<noteq> 0 then
        (case get_node h cur of
           Inl e \<Rightarrow> Some (Inl e)
         | Inr n \<Rightarrow>
             if node_data n = d then Some (Inr idx)
             else find_loop h d (node_next n) (idx + 1))
      else Some (Inr SIZE_MAX))"

definition linked_list_find ::
  "heap \<Rightarrow> ptr \<Rightarrow> uint \<Rightarrow> (fault + size_t \<times> heap) option" where
  "linked_list_find h ll d =
     (if ll = 0 then Some (Inr (SIZE_MAX, h))
      else
        (case get_list h ll of
           Inl e \<Rightarrow> Some (Inl e)
         | Inr l \<Rightarrow>
             (case find_loop h d (ll_head l) 0 of
                None \<Rightarrow> None
              | Some (Inl e) \<Rightarrow> Some (Inl e)
              | Some (Inr r) \<Rightarrow> Some (Inr (r, h)))))"

subsection \<open>Removal\<close>

definition linked_list_remove :: "heap \<Rightarrow> ptr \<Rightarrow> size_t \<Rightarrow> fault + bool \<times> heap" where
  "linked_list_remove h ll index =
     (if ll = 0 then Inr (False, h)
      else
        (case get_list h ll of
           Inl e \<Rightarrow> Inl e
         | Inr l \<Rightarrow>
             if index < 0 \<or> index > ll_size l then Inr (False, h)
             else if index = 0 then
               (case get_node h (ll_head l) of
                  Inl e \<Rightarrow> Inl e
                | Inr n \<Rightarrow>
                    Inr (True, put_list (free_node h (ll_head l)) ll
                                 (l\<lparr>ll_head := node_next n, ll_size := ll_size l - 1\<rparr>)))
             else
               (case walk h index (ll_head l) 0 0 of
                  Inl e \<Rightarrow> Inl e
                | Inr (cur, prev, idx) \<Rightarrow>
                    if cur = 0 then Inr (False, h)
                    else
                      (case get_node h cur of
                         Inl e \<Rightarrow> Inl e
                       | Inr n \<Rightarrow>
                           (case set_next h prev (node_next n) of
                              Inl e \<Rightarrow> Inl e
                            | Inr h1 \<Rightarrow>
                                (case set_next h1 cur 0 of
                                   Inl e \<Rightarrow> Inl e
                                 | Inr h2 \<Rightarrow>
                                     Inr (True, put_list (free_node h2 cur) ll
                                                  (l\<lparr>ll_size := ll_size l - 1\<rparr>))))))))"

subsection \<open>Iterators\<close>

definition linked_list_create_iterator ::
  "heap \<Rightarrow> ptr \<Rightarrow> size_t \<Rightarrow> ptr \<Rightarrow> fault + ptr \<times> heap" where
  "linked_list_create_iterator h ll index m =
     (if ll = 0 then Inr (0, h)
      else
        (case get_list h ll of
           Inl e \<Rightarrow> Inl e
         | Inr l \<Rightarrow>
             if index > ll_size l then Inr (0, h)
             else
               (case walk h index (ll_head l) 0 0 of
                  Inl e \<Rightarrow> Inl e
                | Inr (cur, prev, idx) \<Rightarrow>
                    if cur = 0 then Inr (0, h)
                    else if m = 0 then Inr (0, h)
                    else
                      (case get_node h cur of
                         Inl e \<Rightarrow> Inl e
                       | Inr n \<Rightarrow>
                           Inr (m, put_iter h m
                                     \<lparr>it_ll = ll, it_current_index = idx,
                                      it_current_node = cur, it_data = node_data n\<rparr>)))))"

definition linked_list_iterate :: "heap \<Rightarrow> ptr \<Rightarrow> fault + bool \<times> heap" where
  "linked_list_iterate h iter =
     (if iter = 0 then Inr (False, h)
      else
        (case get_iter h iter of
           Inl e \<Rightarrow> Inl e
         | Inr it \<Rightarrow>
             if it_current_node it = 0 then Inr (False, h)
             else
               (case get_node h (it_current_node it) of
                  Inl e \<Rightarrow> Inl e
                | Inr n \<Rightarrow>
                    if node_next n = 0 then
                      Inr (False, put_iter h iter (it\<lparr>it_current_node := node_next n\<rparr>))
                    else
                      (case get_node h (node_next n) of
                         Inl e \<Rightarrow> Inl e
                       | Inr n' \<Rightarrow>
                           Inr (True, put_iter h iter
                                        (it\<lparr>it_current_node := node_next n,
                                            it_current_index := it_current_index it + 1,
                                            it_data := node_data n'\<rparr>))))))"

text \<open>
  A caller that advances an iterator again and again: \<open>iterate_again n\<close> is the
  result of the last of \<open>n + 1\<close> consecutive calls of \<^verbatim>\<open>linked_list_iterate\<close>.
\<close>

fun iterate_again :: "nat \<Rightarrow> heap \<Rightarrow> ptr \<Rightarrow> fault + bool \<times> heap" where
  "iterate_again 0 h iter = linked_list_iterate h iter"
| "iterate_again (Suc n) h iter =
     (case linked_list_iterate h iter of
        Inl e \<Rightarrow> Inl e
      | Inr (b, h') \<Rightarrow> iterate_again n h' iter)"

subsection \<open>The abstraction of a list\<close>

text \<open>
  \<open>seg nd p xs q\<close>: in the node map \<open>nd\<close>, following \<^verbatim>\<open>next\<close> from \<open>p\<close> visits
  exactly the live nodes listed in \<open>xs\<close>, each with its address and its data, and
  arrives at \<open>q\<close>. A chain is a segment that ends in the null pointer; these are the
  nodes reachable from its first pointer.
\<close>

fun seg :: "(ptr \<rightharpoonup> node) \<Rightarrow> ptr \<Rightarrow> (ptr \<times> uint) list \<Rightarrow> ptr \<Rightarrow> bool" where
  "seg nd p [] q = (p = q)"
| "seg nd p (x # xs) q =
     (p = fst x \<and> p \<noteq> 0 \<and>
      (case nd p of
         None \<Rightarrow> False
       | Some n \<Rightarrow> node_data n = snd x \<and> seg nd (node_next n) xs q))"

definition chain :: "(ptr \<rightharpoonup> node) \<Rightarrow> ptr \<Rightarrow> (ptr \<times> uint) list \<Rightarrow> bool" where
  "chain nd p xs = seg nd p xs 0"

text \<open>
  \<open>list_at h ll xs\<close>: \<open>ll\<close> points to a live list header whose \<^verbatim>\<open>head\<close> starts
  the chain \<open>xs\<close> and whose \<^verbatim>\<open>size\<close> is the number of nodes of that chain.
\<close>

definition list_at :: "heap \<Rightarrow> ptr \<Rightarrow> (ptr \<times> uint) list \<Rightarrow> bool" where
  "list_at h ll xs =
     (ll \<noteq> 0 \<and>
      (case lists h ll of
         None \<Rightarrow> False
       | Some l \<Rightarrow> chain (nodes h) (ll_head l) xs \<and> unat (ll_size l) = length xs))"

text \<open>The address of the node at position \<open>k\<close> of a chain, null past its end.\<close>

definition ptr_at :: "(ptr \<times> uint) list \<Rightarrow> nat \<Rightarrow> ptr" where
  "ptr_at xs k = (if k < length xs then fst (xs ! k) else 0)"

subsection \<open>Sequences of operations\<close>

text \<open>
  An operation of a caller on one list, with the pointer that the allocator returns to
  it. \<open>malloc_ok h m\<close> is what a \<^verbatim>\<open>malloc\<close>-like function guarantees of its result
  \<open>m\<close>: it is null or memory that is not in use.
\<close>

datatype op =
    Insert_front uint ptr
  | Insert_end uint ptr
  | Insert size_t uint ptr
  | Remove size_t

definition malloc_ok :: "heap \<Rightarrow> ptr \<Rightarrow> bool" where
  "malloc_ok h m = (m = 0 \<or> nodes h m = None)"

fun op_malloc_ok :: "heap \<Rightarrow> op \<Rightarrow> bool" where
  "op_malloc_ok h (Insert_front d m) = malloc_ok h m"
| "op_malloc_ok h (Insert_end d m) = malloc_ok h m"
| "op_malloc_ok h (Insert i d m) = malloc_ok h m"
| "op_malloc_ok h (Remove i) = True"

fun is_insert :: "op \<Rightarrow> bool" where
  "is_insert (Remove i) = False"
| "is_insert x = True"

fun apply_op :: "heap \<Rightarrow> ptr \<Rightarrow> op \<Rightarrow> (fault + bool \<times> heap) option" where
  "apply_op h ll (Insert_front d m) = Some (linked_list_insert_front h ll d m)"
| "apply_op h ll (Insert_end d m) = linked_list_insert_end h ll d m"
| "apply_op h ll (Insert i d m) = linked_list_insert h ll i d m"
| "apply_op h ll (Remove i) = Some (linked_list_remove h ll i)"

text \<open>
  \<open>run_ops h ll ops\<close> is the heap after the operations \<open>ops\<close> when each of them
  returned \<^verbatim>\<open>true\<close>, and \<open>None\<close> as soon as one of them fails, faults or does not
  return.
\<close>

fun run_ops :: "heap \<Rightarrow> ptr \<Rightarrow> op list \<Rightarrow> heap option" where
  "run_ops h ll [] = Some h"
| "run_ops h ll (x # xs) =
     (if op_malloc_ok h x then
        (case apply_op h ll x of
           Some (Inr (True, h')) \<Rightarrow> run_ops h' ll xs
         | _ \<Rightarrow> None)
      else None)"

subsection \<open>Example heaps\<close>

text \<open>
  The heap before any allocation, and a heap with one list of three nodes: the header
  at address 8, the nodes at 16, 32 and 48 holding 7, 9 and 7.
\<close>

definition empty_heap :: heap where
  "empty_heap = \<lparr>nodes = Map.empty, lists = Map.empty, iters = Map.empty\<rparr>"

definition example_heap :: heap where
  "example_heap =
     \<lparr>nodes = [16 \<mapsto> \<lparr>node_data = 7, node_next = 32\<rparr>,
               32 \<mapsto> \<lparr>node_data = 9, node_next = 48\<rparr>,
               48 \<mapsto> \<lparr>node_data = 7, node_next = 0\<rparr>],
      lists = [8 \<mapsto> \<lparr>ll_head = 16, ll_size = 3\<rparr>],
      iters = Map.empty\<rparr>"

definition example_chain :: "(ptr \<times> uint) list" where
  "example_chain = [(16, 7), (32, 9), (48, 7)]"

text \<open>
  The example heap with two iterators over its list: one at address 64 on the node at
  index 1, one at address 80 on the last node.
\<close>

definition iterators_heap :: heap where
  "iterators_heap =
     put_iter
       (put_iter example_heap 64
          \<lparr>it_ll = 8, it_current_index = 1, it_current_node = 32, it_data = 9\<rparr>)
       80 \<lparr>it_ll = 8, it_current_index = 2, it_current_node = 48, it_data = 7\<rparr>"

section \<open>Properties\<close>

subsection \<open>Chains\<close>

lemma seg_null [simp]: "seg nd 0 xs q = (xs = [] \<and> q = 0)"
  by (cases xs) auto

lemma seg_append: "seg nd p (xs @ ys) q = (\<exists>r. seg nd p xs r \<and> seg nd r ys q)"
  by (induction xs arbitrary: p) (auto split: option.splits)

lemma seg_upd: "a \<notin> fst ` set xs \<Longrightarrow> seg (nd(a := v)) p xs q = seg nd p xs q"
  by (induction xs arbitrary: p) (auto split: option.splits)

lemma chain_unique: "chain nd p xs \<Longrightarrow> chain nd p ys \<Longrightarrow> xs = ys"
  unfolding chain_def
proof (induction xs arbitrary: p ys)
  case Nil
  then show ?case by simp
next
  case (Cons x xs)
  then obtain y ys' where ys: "ys = y # ys'"
    by (cases ys) auto
  with Cons.prems have "x = y"
    by (auto split: option.splits simp: prod_eq_iff)
  moreover from Cons.prems ys have "xs = ys'"
    by (auto split: option.splits intro: Cons.IH)
  ultimately show ?case using ys by simp
qed

lemma chain_head_notin_tail:
  assumes "chain nd p (x # xs)"
  shows "fst x \<notin> fst ` set xs"
proof
  assume "fst x \<in> fst ` set xs"
  then obtain y where y: "y \<in> set xs" "fst y = fst x" by auto
  then obtain us vs where split: "xs = us @ y # vs"
    by (auto simp: in_set_conv_decomp)
  from assms have "seg nd p ((x # us) @ (y # vs)) 0"
    unfolding chain_def split by auto
  then obtain r where "seg nd r (y # vs) 0"
    unfolding seg_append by blast
  then have "chain nd (fst x) (y # vs)"
    using y by (auto simp: chain_def)
  moreover from assms have "chain nd (fst x) (x # xs)"
    by (auto simp: chain_def)
  ultimately have "y # vs = x # xs"
    by (rule chain_unique)
  then have "length vs = length xs" by simp
  with split show False by simp
qed

lemma chain_tail: "chain nd p (x # xs) \<Longrightarrow> \<exists>n::node. nd p = Some n \<and> chain nd (node_next n) xs"
  by (auto simp: chain_def split: option.splits)

lemma chain_distinct: "chain nd p xs \<Longrightarrow> distinct (map fst xs)"
proof (induction xs arbitrary: p)
  case Nil
  then show ?case by simp
next
  case (Cons x xs)
  from chain_tail [OF Cons.prems] obtain n :: node where "chain nd (node_next n) xs" by blast
  then have "distinct (map fst xs)" by (rule Cons.IH)
  with chain_head_notin_tail [OF Cons.prems] show ?case by simp
qed

lemma seg_nonnull: "seg nd p xs q \<Longrightarrow> 0 \<notin> fst ` set xs"
  by (induction xs arbitrary: p) (auto split: option.splits)

lemma chain_length: 
  assumes "chain nd p xs"
  shows "length xs < 2 ^ 64"
proof -
  have "length xs = card (set (map fst xs))"
    using chain_distinct [OF assms] distinct_card [of "map fst xs"] by simp
  also have "\<dots> \<le> card (UNIV - {0 :: 64 word})"
    using assms seg_nonnull [of nd p xs 0]
    by (intro card_mono) (auto simp: chain_def)
  also have "\<dots> = 2 ^ 64 - 1"
    by (simp add: card_Diff_singleton card_word)
  finally show ?thesis by simp
qed

subsection \<open>Words, heap updates and the loops on a chain\<close>

lemma unat_plus1_less: "(idx::64 word) < index \<Longrightarrow> unat (idx + 1) = Suc (unat idx)"
proof -
  assume "idx < index"
  then have "unat idx < unat index" by (simp add: word_less_nat_alt)
  moreover have "unat index < 2 ^ 64" using unsigned_less [of index, where ?'a = nat] by simp
  ultimately have "unat idx + unat (1::64 word) < 2 ^ LENGTH(64)" by simp
  then show ?thesis by (simp add: unat_add_lem [THEN iffD1])
qed

lemma unat_plus1: "Suc (unat (s::64 word)) < 2 ^ 64 \<Longrightarrow> unat (s + 1) = Suc (unat s)"
proof -
  assume "Suc (unat s) < 2 ^ 64"
  then have "unat s + unat (1::64 word) < 2 ^ LENGTH(64)" by simp
  then show ?thesis by (simp add: unat_add_lem [THEN iffD1])
qed

lemma heap_simps [simp]:
  "nodes (put_list h p l) = nodes h"
  "lists (put_list h p l) = (lists h)(p \<mapsto> l)"
  "iters (put_list h p l) = iters h"
  "nodes (put_iter h p i) = nodes h"
  "lists (put_iter h p i) = lists h"
  "iters (put_iter h p i) = (iters h)(p \<mapsto> i)"
  "nodes (new_node h m d nx) = (nodes h)(m \<mapsto> \<lparr>node_data = d, node_next = nx\<rparr>)"
  "lists (new_node h m d nx) = lists h"
  "iters (new_node h m d nx) = iters h"
  "nodes (free_node h p) = (nodes h)(p := None)"
  "lists (free_node h p) = lists h"
  "iters (free_node h p) = iters h"
  by (simp_all add: put_list_def put_iter_def new_node_def free_node_def)

lemma seg_dom: "seg nd p xs q \<Longrightarrow> a \<in> fst ` set xs \<Longrightarrow> nd a \<noteq> None"
  by (induction xs arbitrary: p) (auto split: option.splits)

lemma seg_fresh: "seg nd p xs q \<Longrightarrow> nd a = None \<Longrightarrow> a \<notin> fst ` set xs"
  using seg_dom by blast

lemma list_atD:
  assumes "list_at h ll xs"
  obtains l where "ll \<noteq> 0" "lists h ll = Some l" "get_list h ll = Inr l"
    "chain (nodes h) (ll_head l) xs" "unat (ll_size l) = length xs"
  using assms by (auto simp: list_at_def get_list_def split: option.splits)

lemma list_atI:
  "ll \<noteq> 0 \<Longrightarrow> lists h ll = Some l \<Longrightarrow> chain (nodes h) (ll_head l) xs \<Longrightarrow>
   unat (ll_size l) = length xs \<Longrightarrow> list_at h ll xs"
  by (simp add: list_at_def)

lemma walk_chain:
  "chain (nodes h) cur ys \<Longrightarrow> unat idx + j = unat index \<Longrightarrow> j \<le> length ys \<Longrightarrow>
   walk h index cur prev idx =
     Inr (ptr_at ys j, if j = 0 then prev else fst (ys ! (j - 1)), index)"
proof (induction j arbitrary: cur ys prev idx)
  case 0
  then have "idx = index" by (simp add: word_unat_eq_iff)
  moreover have "cur = ptr_at ys 0"
    using "0.prems"(1) by (cases ys) (auto simp: ptr_at_def chain_def)
  ultimately show ?case
    by (simp add: walk.simps)
next
  case (Suc j)
  then obtain y ys' where ys: "ys = y # ys'"
    by (cases ys) auto
  from Suc.prems(1) ys obtain n :: node where
    n: "cur = fst y" "cur \<noteq> 0" "nodes h cur = Some n" "chain (nodes h) (node_next n) ys'"
    by (auto simp: chain_def split: option.splits)
  from Suc.prems(2) have lt: "idx < index"
    by (simp add: word_less_nat_alt)
  then have step: "unat (idx + 1) = Suc (unat idx)"
    by (rule unat_plus1_less)
  have "walk h index cur prev idx = walk h index (node_next n) cur (idx + 1)"
    using n lt by (subst walk.simps) (simp add: get_node_def)
  also have "\<dots> = Inr (ptr_at ys' j, if j = 0 then cur else fst (ys' ! (j - 1)), index)"
    using Suc.prems ys step by (intro Suc.IH n) auto
  finally show ?case
    using ys n by (cases j) (auto simp: ptr_at_def)
qed

lemma insert_end_loop_chain:
  "chain (nodes h) p xs \<Longrightarrow> xs \<noteq> [] \<Longrightarrow> insert_end_loop h p = Some (Inr (fst (last xs)))"
proof (induction xs arbitrary: p)
  case Nil
  then show ?case by simp
next
  case (Cons x xs)
  from Cons.prems(1) obtain n :: node where
    n: "p = fst x" "p \<noteq> 0" "nodes h p = Some n" "chain (nodes h) (node_next n) xs"
    by (auto simp: chain_def split: option.splits)
  show ?case
  proof (cases xs)
    case Nil
    with n have "node_next n = 0" by (simp add: chain_def)
    with n Nil show ?thesis
      by (subst insert_end_loop.simps) (simp add: get_node_def)
  next
    case (Cons y ys)
    with n have nz: "node_next n \<noteq> 0" by (auto simp: chain_def)
    have "insert_end_loop h p = insert_end_loop h (node_next n)"
      using n nz by (subst insert_end_loop.simps) (simp add: get_node_def)
    also have "\<dots> = Some (Inr (fst (last xs)))"
      using n Cons by (intro Cons.IH) auto
    finally show ?thesis using Cons by simp
  qed
qed

lemma chain_size_inc:
  assumes "chain nd p ys" "length ys = Suc (unat (s::64 word))"
  shows "unat (s + 1) = Suc (unat s)"
proof -
  from chain_length [OF assms(1)] assms(2) have "Suc (unat s) < 2 ^ 64" by simp
  then show ?thesis by (rule unat_plus1)
qed

lemma insert_front_list_at:
  assumes "list_at h ll xs" "m \<noteq> 0" "nodes h m = None"
  shows "\<exists>h'. linked_list_insert_front h ll d m = Inr (True, h') \<and> list_at h' ll ((m, d) # xs)"
proof -
  from assms(1) obtain l where l: "ll \<noteq> 0" "lists h ll = Some l" "get_list h ll = Inr l"
    "chain (nodes h) (ll_head l) xs" "unat (ll_size l) = length xs"
    by (rule list_atD)
  define h' where "h' = put_list (new_node h m d (ll_head l)) ll
    (l\<lparr>ll_head := m, ll_size := ll_size l + 1\<rparr>)"
  have run: "linked_list_insert_front h ll d m = Inr (True, h')"
    using l assms(2) by (simp add: linked_list_insert_front_def h'_def)
  have "m \<notin> fst ` set xs"
    using l(4) assms(3) unfolding chain_def by (rule seg_fresh)
  then have ch: "chain (nodes h') m ((m, d) # xs)"
    using l(4) assms(2) by (simp add: h'_def chain_def seg_upd)
  then have "unat (ll_size l + 1) = Suc (unat (ll_size l))"
    by (rule chain_size_inc) (simp add: l)
  with ch l have "list_at h' ll ((m, d) # xs)"
    by (intro list_atI [where l = "l\<lparr>ll_head := m, ll_size := ll_size l + 1\<rparr>"])
       (simp_all add: h'_def)
  with run show ?thesis by blast
qed

lemma seg_snoc:
  "seg nd p (xs @ [x]) q =
     (\<exists>n. seg nd p xs (fst x) \<and> fst x \<noteq> 0 \<and> nd (fst x) = Some n \<and>
          node_data n = snd x \<and> node_next n = q)"
  by (auto simp: seg_append split: option.splits)

lemma insert_end_list_at:
  assumes "list_at h ll xs" "m \<noteq> 0" "nodes h m = None"
  shows "\<exists>h'. linked_list_insert_end h ll d m = Some (Inr (True, h')) \<and>
           list_at h' ll (xs @ [(m, d)])"
proof -
  from assms(1) obtain l where l: "ll \<noteq> 0" "lists h ll = Some l" "get_list h ll = Inr l"
    "chain (nodes h) (ll_head l) xs" "unat (ll_size l) = length xs"
    by (rule list_atD)
  have fresh: "m \<notin> fst ` set xs"
    using l(4) assms(3) unfolding chain_def by (rule seg_fresh)
  show ?thesis
  proof (cases xs rule: rev_cases)
    case Nil
    with l have hd0: "ll_head l = 0" by (simp add: chain_def)
    define h' where "h' = put_list (new_node h m d 0) ll
      (l\<lparr>ll_head := m, ll_size := ll_size l + 1\<rparr>)"
    have run: "linked_list_insert_end h ll d m = Some (Inr (True, h'))"
      using l assms(2) hd0 by (simp add: linked_list_insert_end_def h'_def)
    have ch: "chain (nodes h') m [(m, d)]"
      using assms(2) by (simp add: h'_def chain_def)
    then have "unat (ll_size l + 1) = Suc (unat (ll_size l))"
      by (rule chain_size_inc) (simp add: l Nil)
    with ch l Nil have "list_at h' ll (xs @ [(m, d)])"
      by (intro list_atI [where l = "l\<lparr>ll_head := m, ll_size := ll_size l + 1\<rparr>"])
         (simp_all add: h'_def)
    with run show ?thesis by blast
  next
    case (snoc ys y)
    define h1 where "h1 = new_node h m d 0"
    have ch1: "chain (nodes h1) (ll_head l) xs"
      using l(4) fresh by (simp add: h1_def chain_def seg_upd)
    from ch1 snoc obtain n :: node where
      n: "seg (nodes h1) (ll_head l) ys (fst y)" "fst y \<noteq> 0" "nodes h1 (fst y) = Some n"
         "node_data n = snd y" "node_next n = 0"
      by (auto simp: chain_def seg_snoc)
    from snoc l have hdnz: "ll_head l \<noteq> 0"
      by (cases ys) (auto simp: chain_def)
    have loop: "insert_end_loop h1 (ll_head l) = Some (Inr (fst y))"
      using insert_end_loop_chain [OF ch1] snoc by simp
    define h2 where "h2 = h1\<lparr>nodes := (nodes h1)(fst y \<mapsto> n\<lparr>node_next := m\<rparr>)\<rparr>"
    have sn: "set_next h1 (fst y) m = Inr h2"
      using n by (simp add: set_next_def get_node_def h2_def)
    define h' where "h' = put_list h2 ll (l\<lparr>ll_size := ll_size l + 1\<rparr>)"
    have run: "linked_list_insert_end h ll d m = Some (Inr (True, h'))"
      using l assms(2) hdnz loop sn
      by (simp add: linked_list_insert_end_def h'_def h1_def [symmetric])
    have ynotin: "fst y \<notin> fst ` set ys"
    proof -
      from ch1 snoc have "distinct (map fst (ys @ [y]))"
        using chain_distinct by blast
      then show ?thesis by auto
    qed
    have ym: "fst y \<noteq> m"
      using fresh snoc by auto
    have "seg (nodes h2) (ll_head l) ys (fst y)"
      using n(1) ynotin by (simp add: h2_def seg_upd)
    moreover have "nodes h2 (fst y) = Some (n\<lparr>node_next := m\<rparr>)"
      by (simp add: h2_def)
    moreover have "nodes h2 m = Some \<lparr>node_data = d, node_next = 0\<rparr>"
      using ym by (simp add: h2_def h1_def)
    ultimately have ch: "chain (nodes h') (ll_head l) (xs @ [(m, d)])"
      using n assms(2) snoc by (simp add: chain_def seg_append h'_def)
    then have "unat (ll_size l + 1) = Suc (unat (ll_size l))"
      by (rule chain_size_inc) (simp add: l)
    with ch l have "list_at h' ll (xs @ [(m, d)])"
      by (intro list_atI [where l = "l\<lparr>ll_size := ll_size l + 1\<rparr>"])
         (simp_all add: h'_def)
    with run show ?thesis by blast
  qed
qed

lemma seg_upd2:
  "a \<notin> fst ` set xs \<Longrightarrow> b \<notin> fst ` set xs \<Longrightarrow> seg nd p xs q \<Longrightarrow>
   seg (nd(a := v, b := w)) p xs q"
  by (simp add: seg_upd)

lemma insert_middle_list_at:
  assumes "list_at h ll xs" "m \<noteq> 0" "nodes h m = None"
    and k: "0 < unat index" "unat index < length xs"
  shows "\<exists>h'. linked_list_insert h ll index d m = Some (Inr (True, h')) \<and>
           list_at h' ll (take (unat index) xs @ (m, d) # drop (unat index) xs)"
proof -
  define k where "k = unat index"
  from assms(1) obtain l where l: "ll \<noteq> 0" "lists h ll = Some l" "get_list h ll = Inr l"
    "chain (nodes h) (ll_head l) xs" "unat (ll_size l) = length xs"
    by (rule list_atD)
  have fresh: "m \<notin> fst ` set xs"
    using l(4) assms(3) unfolding chain_def by (rule seg_fresh)
  define pre where "pre = take (k - 1) xs"
  define y where "y = xs ! (k - 1)"
  define z where "z = xs ! k"
  define post where "post = drop (Suc k) xs"
  have dk: "drop k xs = z # post"
    using k by (simp add: z_def post_def k_def Cons_nth_drop_Suc)
  have tk: "take k xs = pre @ [y]"
  proof -
    have "take (Suc (k - 1)) xs = take (k - 1) xs @ [xs ! (k - 1)]"
      using k by (intro take_Suc_conv_app_nth) (simp add: k_def)
    then show ?thesis
      using k by (simp add: pre_def y_def k_def)
  qed
  have xs: "xs = pre @ y # z # post"
    using append_take_drop_id [of k xs] by (simp add: tk dk)
  from l(4) obtain ny :: node where
    ny: "seg (nodes h) (ll_head l) pre (fst y)" "fst y \<noteq> 0" "nodes h (fst y) = Some ny"
        "node_data ny = snd y" "node_next ny = fst z" "seg (nodes h) (fst z) (z # post) 0"
    unfolding chain_def xs by (auto simp: seg_append split: option.splits)
  have dist: "distinct (map fst (pre @ y # z # post))"
    using chain_distinct [OF l(4)] xs by simp
  have idx: "index \<noteq> 0" "index \<noteq> ll_size l" "\<not> index > ll_size l"
    using k l(5) by (auto simp: word_less_nat_alt unat_eq_zero)
  have w: "walk h index (ll_head l) 0 0 = Inr (fst z, fst y, index)"
    using walk_chain [OF l(4), of 0 "unat index" index 0] k
    by (simp add: ptr_at_def z_def y_def k_def)
  define h1 where "h1 = new_node h m d (fst z)"
  define h2 where "h2 = h1\<lparr>nodes := (nodes h1)(fst y \<mapsto> ny\<lparr>node_next := m\<rparr>)\<rparr>"
  have ym: "fst y \<noteq> m"
    using fresh xs by auto
  have sn: "set_next h1 (fst y) m = Inr h2"
    using ny ym by (simp add: set_next_def get_node_def h2_def h1_def)
  define h' where "h' = put_list h2 ll (l\<lparr>ll_size := ll_size l + 1\<rparr>)"
  have run: "linked_list_insert h ll index d m = Some (Inr (True, h'))"
    using l assms(2) idx w sn
    by (simp add: linked_list_insert_def h'_def h1_def [symmetric])
  have nd': "nodes h' = (nodes h)(m \<mapsto> \<lparr>node_data = d, node_next = fst z\<rparr>,
      fst y \<mapsto> ny\<lparr>node_next := m\<rparr>)"
    by (simp add: h'_def h2_def h1_def)
  have "seg (nodes h') (ll_head l) pre (fst y)"
  proof -
    have "m \<notin> fst ` set pre" "fst y \<notin> fst ` set pre"
      using dist fresh xs by auto
    then show ?thesis
      unfolding nd' using ny(1) by (rule seg_upd2)
  qed
  moreover have "seg (nodes h') (fst z) (z # post) 0"
  proof -
    have "m \<notin> fst ` set (z # post)" "fst y \<notin> fst ` set (z # post)"
      using dist fresh xs by auto
    then show ?thesis
      unfolding nd' using ny(6) by (rule seg_upd2)
  qed
  moreover have "nodes h' (fst y) = Some (ny\<lparr>node_next := m\<rparr>)"
    "nodes h' m = Some \<lparr>node_data = d, node_next = fst z\<rparr>"
    using ym by (simp_all add: nd')
  ultimately have "seg (nodes h') (ll_head l) (pre @ y # (m, d) # z # post) 0"
    using ny(2,4) assms(2) by (simp add: seg_append)
  then have ch: "chain (nodes h') (ll_head l) (take k xs @ (m, d) # drop k xs)"
    by (simp add: chain_def tk dk)
  then have "unat (ll_size l + 1) = Suc (unat (ll_size l))"
    using k by (intro chain_size_inc [OF ch]) (simp add: l k_def)
  with ch l k have "list_at h' ll (take k xs @ (m, d) # drop k xs)"
    by (intro list_atI [where l = "l\<lparr>ll_size := ll_size l + 1\<rparr>"])
       (simp_all add: h'_def k_def)
  with run show ?thesis by (auto simp: k_def)
qed

lemma insert_list_at:
  assumes "list_at h ll xs" "m \<noteq> 0" "nodes h m = None" "unat index \<le> length xs"
  shows "\<exists>h'. linked_list_insert h ll index d m = Some (Inr (True, h')) \<and>
           list_at h' ll (take (unat index) xs @ (m, d) # drop (unat index) xs)"
proof -
  from assms(1) obtain l where l: "ll \<noteq> 0" "lists h ll = Some l" "get_list h ll = Inr l"
    "chain (nodes h) (ll_head l) xs" "unat (ll_size l) = length xs"
    by (rule list_atD)
  have le: "\<not> index > ll_size l"
    using assms(4) l(5) by (simp add: word_less_nat_alt)
  have "0 < unat index \<and> unat index < length xs"
    if "index \<noteq> 0" "index \<noteq> ll_size l"
  proof -
    from that(1) have "unat index \<noteq> 0"
      by (simp add: unat_eq_zero)
    moreover from that(2) have "unat index \<noteq> unat (ll_size l)"
      using word_unat_eq_iff by blast
    ultimately show ?thesis
      using assms(4) l(5) by simp
  qed
  then consider "index = 0" | "index \<noteq> 0" "index = ll_size l"
    | "0 < unat index" "unat index < length xs"
    by (cases "index = 0"; cases "index = ll_size l") simp_all
  then show ?thesis
  proof cases
    case 1
    with l le have "linked_list_insert h ll index d m = Some (linked_list_insert_front h ll d m)"
      by (simp add: linked_list_insert_def)
    with insert_front_list_at [OF assms(1-3), of d] 1 show ?thesis
      by auto
  next
    case 2
    with l le have "linked_list_insert h ll index d m = linked_list_insert_end h ll d m"
      by (simp add: linked_list_insert_def)
    with insert_end_list_at [OF assms(1-3), of d] 2 l(5) show ?thesis
      by auto
  next
    case 3
    then show ?thesis
      by (rule insert_middle_list_at [OF assms(1-3)])
  qed
qed

lemma insert_out_of_range:
  assumes "list_at h ll xs" "length xs < unat index"
  shows "linked_list_insert h ll index d m = Some (Inr (False, h))"
proof -
  from assms(1) obtain l where l: "ll \<noteq> 0" "lists h ll = Some l" "get_list h ll = Inr l"
    "chain (nodes h) (ll_head l) xs" "unat (ll_size l) = length xs"
    by (rule list_atD)
  from assms(2) l(5) have "index > ll_size l"
    by (simp add: word_less_nat_alt)
  with l show ?thesis
    by (simp add: linked_list_insert_def)
qed

lemma remove_front_list_at:
  assumes "list_at h ll (x # xs)"
  shows "\<exists>h'. linked_list_remove h ll 0 = Inr (True, h') \<and> list_at h' ll xs"
proof -
  from assms(1) obtain l where l: "ll \<noteq> 0" "lists h ll = Some l" "get_list h ll = Inr l"
    "chain (nodes h) (ll_head l) (x # xs)" "unat (ll_size l) = length (x # xs)"
    by (rule list_atD)
  from l(4) obtain n :: node where
    n: "ll_head l = fst x" "fst x \<noteq> 0" "nodes h (fst x) = Some n"
       "chain (nodes h) (node_next n) xs"
    by (auto simp: chain_def split: option.splits)
  define h' where "h' = put_list (free_node h (ll_head l)) ll
    (l\<lparr>ll_head := node_next n, ll_size := ll_size l - 1\<rparr>)"
  have run: "linked_list_remove h ll 0 = Inr (True, h')"
    using l n by (simp add: linked_list_remove_def get_node_def h'_def)
  have "fst x \<notin> fst ` set xs"
    using l(4) by (rule chain_head_notin_tail)
  then have ch: "chain (nodes h') (node_next n) xs"
    using n by (simp add: h'_def chain_def seg_upd)
  have "ll_size l \<noteq> 0"
    using l(5) by (auto simp: unat_eq_zero)
  then have "unat (ll_size l - 1) = length xs"
    using l(5) by (simp add: unat_minus_one)
  with ch l have "list_at h' ll xs"
    by (intro list_atI [where l = "l\<lparr>ll_head := node_next n, ll_size := ll_size l - 1\<rparr>"])
       (simp_all add: h'_def)
  with run show ?thesis by blast
qed

lemma remove_middle_list_at:
  assumes "list_at h ll xs" and k: "0 < unat index" "unat index < length xs"
  shows "\<exists>h'. linked_list_remove h ll index = Inr (True, h') \<and>
           list_at h' ll (take (unat index) xs @ drop (Suc (unat index)) xs)"
proof -
  define k where "k = unat index"
  from assms(1) obtain l where l: "ll \<noteq> 0" "lists h ll = Some l" "get_list h ll = Inr l"
    "chain (nodes h) (ll_head l) xs" "unat (ll_size l) = length xs"
    by (rule list_atD)
  define pre where "pre = take (k - 1) xs"
  define y where "y = xs ! (k - 1)"
  define z where "z = xs ! k"
  define post where "post = drop (Suc k) xs"
  have dk: "drop k xs = z # post"
    using k by (simp add: z_def post_def k_def Cons_nth_drop_Suc)
  have tk: "take k xs = pre @ [y]"
  proof -
    have "take (Suc (k - 1)) xs = take (k - 1) xs @ [xs ! (k - 1)]"
      using k by (intro take_Suc_conv_app_nth) (simp add: k_def)
    then show ?thesis
      using k by (simp add: pre_def y_def k_def)
  qed
  have xs: "xs = pre @ y # z # post"
    using append_take_drop_id [of k xs] by (simp add: tk dk)
  from l(4) obtain ny nz :: node where
    ny: "seg (nodes h) (ll_head l) pre (fst y)" "fst y \<noteq> 0" "nodes h (fst y) = Some ny"
        "node_data ny = snd y" "node_next ny = fst z"
    and nz: "fst z \<noteq> 0" "nodes h (fst z) = Some nz" "seg (nodes h) (node_next nz) post 0"
    unfolding chain_def xs by (auto simp: seg_append split: option.splits)
  have dist: "distinct (map fst (pre @ y # z # post))"
    using chain_distinct [OF l(4)] xs by simp
  then have yz: "fst y \<noteq> fst z" by simp
  have idx: "index \<noteq> 0" "\<not> index > ll_size l"
    using k l(5) by (auto simp: word_less_nat_alt unat_eq_zero)
  have w: "walk h index (ll_head l) 0 0 = Inr (fst z, fst y, index)"
    using walk_chain [OF l(4), of 0 "unat index" index 0] k
    by (simp add: ptr_at_def z_def y_def k_def)
  define h1 where "h1 = h\<lparr>nodes := (nodes h)(fst y \<mapsto> ny\<lparr>node_next := node_next nz\<rparr>)\<rparr>"
  define h2 where "h2 = h1\<lparr>nodes := (nodes h1)(fst z \<mapsto> nz\<lparr>node_next := 0\<rparr>)\<rparr>"
  have sn1: "set_next h prev (node_next nz) = Inr h1" if "prev = fst y" for prev
    using ny that by (simp add: set_next_def get_node_def h1_def)
  have sn2: "set_next h1 (fst z) 0 = Inr h2"
    using nz yz by (simp add: set_next_def get_node_def h2_def h1_def)
  define h' where "h' = put_list (free_node h2 (fst z)) ll (l\<lparr>ll_size := ll_size l - 1\<rparr>)"
  have run: "linked_list_remove h ll index = Inr (True, h')"
    using l idx w nz sn1 sn2
    by (simp add: linked_list_remove_def get_node_def h'_def)
  have nd': "nodes h' = (nodes h)(fst y \<mapsto> ny\<lparr>node_next := node_next nz\<rparr>, fst z := None)"
    by (simp add: h'_def h2_def h1_def)
  have "seg (nodes h') (ll_head l) pre (fst y)"
  proof -
    have "fst y \<notin> fst ` set pre" "fst z \<notin> fst ` set pre"
      using dist by auto
    then show ?thesis
      unfolding nd' using ny(1) by (rule seg_upd2)
  qed
  moreover have "seg (nodes h') (node_next nz) post 0"
  proof -
    have "fst y \<notin> fst ` set post" "fst z \<notin> fst ` set post"
      using dist by auto
    then show ?thesis
      unfolding nd' using nz(3) by (rule seg_upd2)
  qed
  moreover have "nodes h' (fst y) = Some (ny\<lparr>node_next := node_next nz\<rparr>)"
    using yz by (simp add: nd')
  ultimately have "seg (nodes h') (ll_head l) (pre @ y # post) 0"
    using ny(2,4) by (simp add: seg_append)
  then have ch: "chain (nodes h') (ll_head l) (take k xs @ drop (Suc k) xs)"
    by (simp add: chain_def tk post_def)
  have "ll_size l \<noteq> 0"
    using l(5) k by (auto simp: unat_eq_zero)
  then have "unat (ll_size l - 1) = length (take k xs @ drop (Suc k) xs)"
    using l(5) k by (simp add: unat_minus_one k_def)
  with ch l have "list_at h' ll (take k xs @ drop (Suc k) xs)"
    by (intro list_atI [where l = "l\<lparr>ll_size := ll_size l - 1\<rparr>"])
       (simp_all add: h'_def)
  with run show ?thesis by (auto simp: k_def)
qed

lemma remove_at_size:
  assumes "list_at h ll xs" "xs \<noteq> []" "unat index = length xs"
  shows "linked_list_remove h ll index = Inr (False, h)"
proof -
  from assms(1) obtain l where l: "ll \<noteq> 0" "lists h ll = Some l" "get_list h ll = Inr l"
    "chain (nodes h) (ll_head l) xs" "unat (ll_size l) = length xs"
    by (rule list_atD)
  have idx: "index \<noteq> 0" "\<not> index > ll_size l"
    using assms(2,3) l(5) by (auto simp: word_less_nat_alt unat_eq_zero)
  have "walk h index (ll_head l) 0 0 = Inr (0, fst (xs ! (length xs - 1)), index)"
    using walk_chain [OF l(4), of 0 "unat index" index 0] assms(2,3)
    by (simp add: ptr_at_def)
  with l idx show ?thesis
    by (simp add: linked_list_remove_def)
qed

lemma remove_out_of_range:
  assumes "list_at h ll xs" "length xs < unat index"
  shows "linked_list_remove h ll index = Inr (False, h)"
proof -
  from assms(1) obtain l where l: "ll \<noteq> 0" "lists h ll = Some l" "get_list h ll = Inr l"
    "chain (nodes h) (ll_head l) xs" "unat (ll_size l) = length xs"
    by (rule list_atD)
  from assms(2) l(5) have "index > ll_size l"
    by (simp add: word_less_nat_alt)
  with l show ?thesis
    by (simp add: linked_list_remove_def)
qed

subsection \<open>Failed allocations and sequences of operations\<close>

lemma insert_front_alloc_fail: "linked_list_insert_front h ll d 0 = Inr (False, h)"
  by (simp add: linked_list_insert_front_def)

lemma insert_end_alloc_fail:
  "ll = 0 \<or> lists h ll = Some l \<Longrightarrow> linked_list_insert_end h ll d 0 = Some (Inr (False, h))"
  by (auto simp: linked_list_insert_end_def get_list_def)

lemma insert_alloc_fail:
  assumes "list_at h ll xs"
  shows "linked_list_insert h ll index d 0 = Some (Inr (False, h))"
proof -
  from assms(1) obtain l where l: "ll \<noteq> 0" "lists h ll = Some l" "get_list h ll = Inr l"
    "chain (nodes h) (ll_head l) xs" "unat (ll_size l) = length xs"
    by (rule list_atD)
  show ?thesis
  proof (cases "index > ll_size l")
    case True
    with l show ?thesis by (simp add: linked_list_insert_def)
  next
    case False
    then have "unat index \<le> length xs"
      using l(5) by (simp add: word_less_nat_alt)
    then have "\<exists>r. walk h index (ll_head l) 0 0 = Inr r"
      using walk_chain [OF l(4), of 0 "unat index" index 0] by simp
    with l False show ?thesis
      by (auto simp: linked_list_insert_def insert_front_alloc_fail insert_end_alloc_fail)
  qed
qed

lemma insert_null: "linked_list_insert h 0 index d m = Some (Inr (False, h))"
  by (simp add: linked_list_insert_def)

lemma remove_empty:
  "list_at h ll [] \<Longrightarrow> linked_list_remove h ll 0 = Inl NullDeref"
  by (erule list_atD) (simp add: linked_list_remove_def get_node_def chain_def)

lemma list_at_unique: "list_at h ll xs \<Longrightarrow> list_at h ll ys \<Longrightarrow> xs = ys"
  by (auto simp: list_at_def split: option.splits intro: chain_unique)

lemma list_at_empty_iff:
  assumes "list_at h ll xs" "lists h ll = Some l"
  shows "(ll_size l = 0) = (xs = [])" "(ll_head l = 0) = (xs = [])"
  using assms by (auto simp: list_at_def chain_def unat_eq_zero [symmetric] elim: seg.elims)

lemma list_at_create:
  "m \<noteq> 0 \<Longrightarrow> linked_list_create h0 m = (ll, h) \<Longrightarrow> list_at h ll []"
  by (auto simp: linked_list_create_def list_at_def chain_def)

lemma remove_list_at:
  assumes "list_at h ll xs" "linked_list_remove h ll index = Inr (True, h')"
  shows "unat index < length xs \<and> list_at h' ll (take (unat index) xs @ drop (Suc (unat index)) xs)"
proof -
  have z: "(index = 0) = (unat index = 0)"
    by (simp add: unat_eq_zero)
  consider "length xs < unat index" | "unat index = length xs" "xs \<noteq> []"
    | "index = 0" "xs = []" | "index = 0" "xs \<noteq> []" | "0 < unat index" "unat index < length xs"
    unfolding z length_0_conv [symmetric] by atomize_elim arith
  then show ?thesis
  proof cases
    case 1
    with assms remove_out_of_range show ?thesis by fastforce
  next
    case 2
    with assms remove_at_size show ?thesis by fastforce
  next
    case 3
    with assms remove_empty show ?thesis by fastforce
  next
    case 4
    then obtain y ys where "xs = y # ys" by (cases xs) auto
    with assms 4 remove_front_list_at [of h ll y ys] show ?thesis by auto
  next
    case 5
    with assms remove_middle_list_at [OF assms(1) 5] show ?thesis by auto
  qed
qed

lemma apply_op_list_at:
  assumes "list_at h ll xs" "op_malloc_ok h x" "apply_op h ll x = Some (Inr (True, h'))"
  shows "\<exists>ys. list_at h' ll ys \<and> (is_insert x \<longrightarrow> length ys = Suc (length xs))"
proof (cases x)
  case (Insert_front d m)
  with assms(3) have "m \<noteq> 0"
    by (auto simp: insert_front_alloc_fail)
  with assms Insert_front insert_front_list_at [of h ll xs m d] show ?thesis
    by (auto simp: malloc_ok_def)
next
  case (Insert_end d m)
  with assms(1,3) have "m \<noteq> 0"
    by (auto simp: insert_end_alloc_fail elim!: list_atD)
  with assms Insert_end insert_end_list_at [of h ll xs m d] show ?thesis
    by (auto simp: malloc_ok_def)
next
  case (Insert i d m)
  with assms(1,3) have "m \<noteq> 0"
    by (auto simp: insert_alloc_fail)
  moreover from Insert assms(1,3) have "unat i \<le> length xs"
    using insert_out_of_range [of h ll xs i d m] by (cases "unat i \<le> length xs") auto
  ultimately show ?thesis
    using assms Insert insert_list_at [of h ll xs m i d]
    by (auto simp: malloc_ok_def)
next
  case (Remove i)
  with assms remove_list_at [of h ll xs i h'] show ?thesis by auto
qed

lemma run_ops_list_at:
  "list_at h ll xs \<Longrightarrow> run_ops h ll ops = Some h' \<Longrightarrow>
   \<exists>ys. list_at h' ll ys \<and> ((\<forall>x \<in> set ops. is_insert x) \<longrightarrow> length ys = length xs + length ops)"
proof (induction ops arbitrary: h xs)
  case Nil
  then show ?case by auto
next
  case (Cons x ops)
  from Cons.prems(2) obtain h1 where
    h1: "op_malloc_ok h x" "apply_op h ll x = Some (Inr (True, h1))" "run_ops h1 ll ops = Some h'"
    by (auto split: if_splits option.splits sum.splits bool.splits)
  from apply_op_list_at [OF Cons.prems(1) h1(1,2)] obtain ys where
    ys: "list_at h1 ll ys" "is_insert x \<longrightarrow> length ys = Suc (length xs)"
    by blast
  from Cons.IH [OF ys(1) h1(3)] ys(2) show ?case
    by auto
qed

lemma remove_all_front:
  "list_at h ll xs \<Longrightarrow>
   \<exists>h'. run_ops h ll (replicate (length xs) (Remove 0)) = Some h' \<and> list_at h' ll []"
proof (induction xs arbitrary: h)
  case Nil
  then show ?case by simp
next
  case (Cons x xs)
  from remove_front_list_at [OF Cons.prems] obtain h1 where
    h1: "linked_list_remove h ll 0 = Inr (True, h1)" "list_at h1 ll xs"
    by blast
  from Cons.IH [OF h1(2)] h1(1) show ?case
    by simp
qed

subsection \<open>Removal from the empty list\<close>

text \<open>
  Claim C1 says that \<^verbatim>\<open>linked_list_remove\<close> never dereferences an absent node and
  answers every invalid index with \<^verbatim>\<open>false\<close>, the empty list included. On a list that
  has just been created (here at address 8 in the empty heap), index 0 passes the bound
  check (\<^verbatim>\<open>0 > size\<close> is false), and the branch for index 0 reads \<^verbatim>\<open>cur->next\<close> with
  \<^verbatim>\<open>cur = ll->head = NULL\<close>: the call dereferences the null pointer instead of
  returning \<^verbatim>\<open>false\<close>.
\<close>

theorem remove_empty_list_null_deref:
  "linked_list_remove (snd (linked_list_create empty_heap 8)) 8 0 = Inl NullDeref"
  by (simp add: linked_list_remove_def linked_list_create_def empty_heap_def get_list_def
      get_node_def)

subsection \<open>Evaluation on the example heaps\<close>

lemma example_list_at: "list_at example_heap 8 example_chain"
  by (simp add: list_at_def chain_def example_heap_def example_chain_def)

lemmas eval_defs =
  linked_list_create_def linked_list_size_def empty_heap_def malloc_ok_def
  linked_list_insert_end_def linked_list_insert_front_def linked_list_insert_def
  linked_list_remove_def get_list_def get_node_def set_next_def walk.simps
  insert_end_loop.simps

subsection \<open>The size invariant\<close>

text \<open>
  Claim C2. A list is created by \<^verbatim>\<open>linked_list_create\<close>, and then any sequence of
  insertions (at the front, at the end, at an index) and removals runs on it, each of
  which returns \<^verbatim>\<open>true\<close>, the allocator answering each request with memory that is
  not in use. Afterwards the header is live, the nodes reachable from \<^verbatim>\<open>head\<close> form a
  chain \<open>xs\<close> that ends in the null pointer, \<^verbatim>\<open>size\<close> is the number of these nodes, and
  \<^verbatim>\<open>size\<close> is 0 exactly when \<^verbatim>\<open>head\<close> is null.
\<close>

theorem size_invariant:
  assumes "m0 \<noteq> 0" "linked_list_create h0 m0 = (ll, h)" "run_ops h ll ops = Some h'"
  shows "\<exists>l xs. lists h' ll = Some l \<and> chain (nodes h') (ll_head l) xs \<and>
           unat (ll_size l) = length xs \<and> ((ll_size l = 0) = (ll_head l = 0))"
proof -
  from assms(1,2) have "list_at h ll []"
    by (rule list_at_create)
  from run_ops_list_at [OF this assms(3)] obtain xs where xs: "list_at h' ll xs"
    by blast
  then obtain l where l: "lists h' ll = Some l" "chain (nodes h') (ll_head l) xs"
    "unat (ll_size l) = length xs"
    by (rule list_atD)
  with list_at_empty_iff [OF xs l(1)] show ?thesis
    by auto
qed

text \<open>
  The theorem at a list created at address 8 in the empty heap, after three insertions
  and one removal.
\<close>

theorem size_invariant_witness:
  "(8::ptr) \<noteq> 0 \<and>
   linked_list_create empty_heap 8 = (8, put_list empty_heap 8 \<lparr>ll_head = 0, ll_size = 0\<rparr>) \<and>
   (\<exists>h'. run_ops (put_list empty_heap 8 \<lparr>ll_head = 0, ll_size = 0\<rparr>) 8
            [Insert_end 7 16, Insert_front 9 32, Insert 1 5 48, Remove 1] = Some h' \<and>
         (\<exists>l xs. lists h' 8 = Some l \<and> chain (nodes h') (ll_head l) xs \<and>
            unat (ll_size l) = length xs \<and> ((ll_size l = 0) = (ll_head l = 0))))"
proof -
  have c: "linked_list_create empty_heap 8 = (8, put_list empty_heap 8 \<lparr>ll_head = 0, ll_size = 0\<rparr>)"
    by (simp add: linked_list_create_def)
  obtain h' where r: "run_ops (put_list empty_heap 8 \<lparr>ll_head = 0, ll_size = 0\<rparr>) 8
      [Insert_end 7 16, Insert_front 9 32, Insert 1 5 48, Remove 1] = Some h'"
    by (simp add: eval_defs)
  have "(8::ptr) \<noteq> 0" by simp
  from size_invariant [OF this c r] c r show ?thesis
    by simp
qed

subsection \<open>Allocation failure\<close>

text \<open>
  Claim C8. When the allocator returns the null pointer, each of
  \<^verbatim>\<open>linked_list_insert_front\<close>, \<^verbatim>\<open>linked_list_insert_end\<close> and \<^verbatim>\<open>linked_list_insert\<close>
  (at any index) returns \<^verbatim>\<open>false\<close> and the heap, hence the size and the chain of the
  list, is the heap before the call. The list is absent or well formed.
\<close>

theorem allocation_failure_no_mutation:
  assumes "ll = 0 \<or> list_at h ll xs"
  shows "linked_list_insert_front h ll d 0 = Inr (False, h) \<and>
         linked_list_insert_end h ll d 0 = Some (Inr (False, h)) \<and>
         linked_list_insert h ll index d 0 = Some (Inr (False, h))"
  using assms
proof
  assume "ll = 0"
  then show ?thesis
    by (simp add: insert_front_alloc_fail insert_end_alloc_fail insert_null)
next
  assume l: "list_at h ll xs"
  then have "linked_list_insert_end h ll d 0 = Some (Inr (False, h))"
    by (auto elim!: list_atD intro: insert_end_alloc_fail)
  with l show ?thesis
    by (simp add: insert_front_alloc_fail insert_alloc_fail)
qed

text \<open>The theorem on the example list, for an insertion at index 1.\<close>

theorem allocation_failure_no_mutation_witness:
  "list_at example_heap 8 example_chain \<and>
   linked_list_insert_front example_heap 8 5 0 = Inr (False, example_heap) \<and>
   linked_list_insert_end example_heap 8 5 0 = Some (Inr (False, example_heap)) \<and>
   linked_list_insert example_heap 8 1 5 0 = Some (Inr (False, example_heap))"
  using allocation_failure_no_mutation [of 8 example_heap example_chain 5 1]
  by (simp add: example_list_at)

subsection \<open>Insertions followed by removals at the front\<close>

text \<open>
  Claim C9. On a list that has just been created, any \<open>N\<close> insertions that all
  return \<^verbatim>\<open>true\<close>, followed by \<open>N\<close> calls of \<^verbatim>\<open>linked_list_remove\<close> at index 0: every
  removal returns \<^verbatim>\<open>true\<close>, and in the final heap the header has \<^verbatim>\<open>head\<close> null and
  \<^verbatim>\<open>size\<close> 0, which is also what \<^verbatim>\<open>linked_list_size\<close> returns.
\<close>

theorem insert_remove_round_trip:
  assumes "m0 \<noteq> 0" "linked_list_create h0 m0 = (ll, h)"
    "\<forall>x \<in> set ops. is_insert x" "run_ops h ll ops = Some h1"
  shows "\<exists>h2. run_ops h1 ll (replicate (length ops) (Remove 0)) = Some h2 \<and>
           lists h2 ll = Some \<lparr>ll_head = 0, ll_size = 0\<rparr> \<and>
           linked_list_size h2 ll = Inr 0"
proof -
  from assms(1,2) have "list_at h ll []"
    by (rule list_at_create)
  from run_ops_list_at [OF this assms(4)] assms(3) obtain xs where
    xs: "list_at h1 ll xs" "length xs = length ops"
    by auto
  from remove_all_front [OF xs(1)] xs(2) obtain h2 where
    h2: "run_ops h1 ll (replicate (length ops) (Remove 0)) = Some h2" "list_at h2 ll []"
    by auto
  from h2(2) obtain l where l: "ll \<noteq> 0" "lists h2 ll = Some l" "get_list h2 ll = Inr l"
    by (rule list_atD)
  with list_at_empty_iff [OF h2(2) l(2)] have "l = \<lparr>ll_head = 0, ll_size = 0\<rparr>"
    by simp
  with h2(1) l show ?thesis
    by (simp add: linked_list_size_def)
qed

text \<open>The theorem for three insertions of different kinds.\<close>

theorem insert_remove_round_trip_witness:
  "(8::ptr) \<noteq> 0 \<and>
   linked_list_create empty_heap 8 = (8, put_list empty_heap 8 \<lparr>ll_head = 0, ll_size = 0\<rparr>) \<and>
   list_all is_insert [Insert_end 7 16, Insert_front 9 32, Insert 1 5 48] \<and>
   (\<exists>h1. run_ops (put_list empty_heap 8 \<lparr>ll_head = 0, ll_size = 0\<rparr>) 8
            [Insert_end 7 16, Insert_front 9 32, Insert 1 5 48] = Some h1 \<and>
      (\<exists>h2. run_ops h1 8 [Remove 0, Remove 0, Remove 0] = Some h2 \<and>
            lists h2 8 = Some \<lparr>ll_head = 0, ll_size = 0\<rparr> \<and>
            linked_list_size h2 8 = Inr 0))"
proof -
  let ?ops = "[Insert_end 7 16, Insert_front 9 32, Insert 1 5 48]"
  have c: "linked_list_create empty_heap 8 = (8, put_list empty_heap 8 \<lparr>ll_head = 0, ll_size = 0\<rparr>)"
    by (simp add: linked_list_create_def)
  obtain h1 where r: "run_ops (put_list empty_heap 8 \<lparr>ll_head = 0, ll_size = 0\<rparr>) 8 ?ops = Some h1"
    by (simp add: eval_defs)
  have i: "\<forall>x \<in> set ?ops. is_insert x" by simp
  have "(8::ptr) \<noteq> 0" by simp
  from insert_remove_round_trip [OF this c i r] c r show ?thesis
    by (simp add: numeral_3_eq_3)
qed

subsection \<open>Removal at index \<open>size\<close>\<close>

text \<open>
  Claim C10. On a well-formed list that is not empty, \<^verbatim>\<open>linked_list_remove\<close> at the
  index that \<^verbatim>\<open>linked_list_size\<close> returns passes the bound check, walks to the end of
  the chain, finds no node there and returns \<^verbatim>\<open>false\<close>; the heap is unchanged.
\<close>

theorem remove_at_size_fails:
  assumes "list_at h ll xs" "xs \<noteq> []"
  shows "\<exists>s. linked_list_size h ll = Inr s \<and> unat s = length xs \<and>
           linked_list_remove h ll s = Inr (False, h)"
proof -
  from assms(1) obtain l where l: "ll \<noteq> 0" "get_list h ll = Inr l" "unat (ll_size l) = length xs"
    by (rule list_atD)
  from assms l(3) have "linked_list_remove h ll (ll_size l) = Inr (False, h)"
    by (intro remove_at_size)
  with l show ?thesis
    by (simp add: linked_list_size_def)
qed

text \<open>The theorem on the example list of three nodes, at index 3.\<close>

theorem remove_at_size_fails_witness:
  "list_at example_heap 8 example_chain \<and> example_chain \<noteq> [] \<and>
   linked_list_size example_heap 8 = Inr 3 \<and>
   linked_list_remove example_heap 8 3 = Inr (False, example_heap)"
proof -
  have s: "linked_list_size example_heap 8 = Inr 3"
    by (simp add: linked_list_size_def get_list_def example_heap_def)
  have ne: "example_chain \<noteq> []"
    by (simp add: example_chain_def)
  from remove_at_size_fails [OF example_list_at ne] s example_list_at ne show ?thesis
    by auto
qed

subsection \<open>Insertion at an index\<close>

text \<open>
  Claim C3. On an absent list \<^verbatim>\<open>linked_list_insert\<close> returns \<^verbatim>\<open>false\<close>. On a
  well-formed list with nodes \<open>xs\<close>, whose size is \<open>s\<close>, and with an allocator that
  returns \<open>m\<close> (null, or memory not in use): the call returns \<^verbatim>\<open>true\<close> exactly when
  \<open>index \<le> s\<close> and \<open>m\<close> is not null. Then the list is well formed again, its nodes are
  the nodes before \<open>index\<close>, the new node \<open>m\<close> holding the data, and the nodes from
  \<open>index\<close> on, each old node at its address with its data; and the size is \<open>s + 1\<close>
  without wrap-around. Otherwise (in particular for \<open>index > s\<close>) it returns \<^verbatim>\<open>false\<close> and
  the heap, hence the size, is unchanged.
\<close>

theorem insert_spec:
  assumes "list_at h ll xs" "malloc_ok h m"
  shows "linked_list_insert h 0 index d m = Some (Inr (False, h)) \<and>
         (\<exists>s. linked_list_size h ll = Inr s \<and> unat s = length xs \<and>
            (if index \<le> s \<and> m \<noteq> 0
             then \<exists>h'. linked_list_insert h ll index d m = Some (Inr (True, h')) \<and>
                    list_at h' ll (take (unat index) xs @ (m, d) # drop (unat index) xs) \<and>
                    linked_list_size h' ll = Inr (s + 1) \<and> unat (s + 1) = unat s + 1
             else linked_list_insert h ll index d m = Some (Inr (False, h))))"
proof -
  from assms(1) obtain l where l: "ll \<noteq> 0" "lists h ll = Some l" "get_list h ll = Inr l"
    "chain (nodes h) (ll_head l) xs" "unat (ll_size l) = length xs"
    by (rule list_atD)
  have sz: "linked_list_size h ll = Inr (ll_size l)"
    using l by (simp add: linked_list_size_def)
  have "\<exists>h'. linked_list_insert h ll index d m = Some (Inr (True, h')) \<and>
          list_at h' ll (take (unat index) xs @ (m, d) # drop (unat index) xs) \<and>
          linked_list_size h' ll = Inr (ll_size l + 1) \<and>
          unat (ll_size l + 1) = unat (ll_size l) + 1"
    if "index \<le> ll_size l" "m \<noteq> 0"
  proof -
    from that(1) l(5) have le: "unat index \<le> length xs"
      by (simp add: word_le_nat_alt)
    from that(2) assms(2) have fresh: "nodes h m = None"
      by (simp add: malloc_ok_def)
    from insert_list_at [OF assms(1) that(2) fresh le, of d] obtain h' where
      h': "linked_list_insert h ll index d m = Some (Inr (True, h'))"
        "list_at h' ll (take (unat index) xs @ (m, d) # drop (unat index) xs)"
      by blast
    from h'(2) obtain l' where l': "get_list h' ll = Inr l'"
      "chain (nodes h') (ll_head l') (take (unat index) xs @ (m, d) # drop (unat index) xs)"
      "unat (ll_size l') = length (take (unat index) xs @ (m, d) # drop (unat index) xs)"
      by (rule list_atD)
    from l'(3) le l(5) have eq: "unat (ll_size l') = Suc (unat (ll_size l))"
      by simp
    have inc: "unat (ll_size l + 1) = Suc (unat (ll_size l))"
      using l'(2) by (rule chain_size_inc) (use le l(5) in simp)
    with eq have "unat (ll_size l') = unat (ll_size l + 1)"
      by simp
    then have "ll_size l' = ll_size l + 1"
      by (simp only: word_unat_eq_iff)
    with inc show ?thesis
      using h' l' l(1) by (simp add: linked_list_size_def)
  qed
  moreover have "linked_list_insert h ll index d m = Some (Inr (False, h))"
    if "\<not> (index \<le> ll_size l \<and> m \<noteq> 0)"
  proof (cases "m = 0")
    case True
    with assms(1) show ?thesis by (simp add: insert_alloc_fail)
  next
    case False
    with that l(5) have "length xs < unat index"
      by (simp add: word_le_nat_alt)
    with assms(1) show ?thesis by (rule insert_out_of_range)
  qed
  ultimately show ?thesis
    using sz l(5) by (auto simp: insert_null)
qed

text \<open>
  The theorem on the example list: an insertion at index 1, and one at index 4, which
  is out of range.
\<close>

theorem insert_spec_witness:
  "list_at example_heap 8 example_chain \<and> malloc_ok example_heap 64 \<and>
   linked_list_size example_heap 8 = Inr 3 \<and>
   (\<exists>h'. linked_list_insert example_heap 8 1 5 64 = Some (Inr (True, h')) \<and>
      list_at h' 8 [(16, 7), (64, 5), (32, 9), (48, 7)] \<and>
      linked_list_size h' 8 = Inr 4) \<and>
   linked_list_insert example_heap 8 4 5 64 = Some (Inr (False, example_heap))"
proof -
  have m: "malloc_ok example_heap 64"
    by (simp add: malloc_ok_def example_heap_def)
  have s: "linked_list_size example_heap 8 = Inr 3"
    by (simp add: linked_list_size_def get_list_def example_heap_def)
  from insert_spec [OF example_list_at m, of 1 5] insert_spec [OF example_list_at m, of 4 5]
    example_list_at
  show ?thesis
    by (auto simp: s m example_chain_def)
qed

subsection \<open>Insertion at index 0 and at index \<open>size\<close>\<close>

text \<open>
  Claim C4. For a list that is absent, or live with \<^verbatim>\<open>head\<close> null whenever \<^verbatim>\<open>size\<close> is
  0 (half of the invariant of the data model; every well-formed list has it), and for
  every value and every answer \<open>m\<close> of the allocator: \<^verbatim>\<open>linked_list_insert\<close> at index 0
  has the result and the final heap of \<^verbatim>\<open>linked_list_insert_front\<close>, and
  \<^verbatim>\<open>linked_list_insert\<close> at the index that \<^verbatim>\<open>linked_list_size\<close> returns has the result
  and the final heap of \<^verbatim>\<open>linked_list_insert_end\<close>.
\<close>

theorem insert_index_equivalence:
  assumes "ll = 0 \<or> (\<exists>l. lists h ll = Some l \<and> (ll_size l = 0 \<longrightarrow> ll_head l = 0))"
  shows "linked_list_insert h ll 0 v m = Some (linked_list_insert_front h ll v m) \<and>
         (\<exists>s. linked_list_size h ll = Inr s \<and>
            linked_list_insert h ll s v m = linked_list_insert_end h ll v m)"
  using assms
proof
  assume "ll = 0"
  then show ?thesis
    by (simp add: linked_list_insert_def linked_list_insert_front_def
        linked_list_insert_end_def linked_list_size_def)
next
  assume "\<exists>l. lists h ll = Some l \<and> (ll_size l = 0 \<longrightarrow> ll_head l = 0)"
  then obtain l where l: "lists h ll = Some l" "ll_size l = 0 \<longrightarrow> ll_head l = 0"
    by blast
  show ?thesis
  proof (cases "ll = 0")
    case True
    then show ?thesis
      by (simp add: linked_list_insert_def linked_list_insert_front_def
          linked_list_insert_end_def linked_list_size_def)
  next
    case False
    with l have g: "get_list h ll = Inr l"
      by (simp add: get_list_def)
    have front: "linked_list_insert h ll 0 v m = Some (linked_list_insert_front h ll v m)"
      using False g by (simp add: linked_list_insert_def)
    have "linked_list_insert h ll (ll_size l) v m = linked_list_insert_end h ll v m"
    proof (cases "ll_size l = 0")
      case True
      with l(2) have "ll_head l = 0" by simp
      with True False g show ?thesis
        by (simp add: linked_list_insert_def linked_list_insert_front_def
            linked_list_insert_end_def)
    next
      case nz: False
      with False g show ?thesis
        by (simp add: linked_list_insert_def)
    qed
    with front False g show ?thesis
      by (simp add: linked_list_size_def)
  qed
qed

text \<open>The theorem on the example list, whose size is 3.\<close>

theorem insert_index_equivalence_witness:
  "lists example_heap 8 = Some \<lparr>ll_head = 16, ll_size = 3\<rparr> \<and>
   linked_list_insert example_heap 8 0 5 64 = Some (linked_list_insert_front example_heap 8 5 64) \<and>
   linked_list_size example_heap 8 = Inr 3 \<and>
   linked_list_insert example_heap 8 3 5 64 = linked_list_insert_end example_heap 8 5 64"
proof -
  have l: "lists example_heap 8 = Some \<lparr>ll_head = 16, ll_size = 3\<rparr>"
    by (simp add: example_heap_def)
  have s: "linked_list_size example_heap 8 = Inr 3"
    by (simp add: linked_list_size_def get_list_def example_heap_def)
  from insert_index_equivalence [of 8 example_heap 5 64] l s show ?thesis
    by simp
qed

subsection \<open>Creating an iterator\<close>

lemma chain_nth:
  "chain nd p xs \<Longrightarrow> k < length xs \<Longrightarrow>
   fst (xs ! k) \<noteq> 0 \<and> (\<exists>n::node. nd (fst (xs ! k)) = Some n \<and> node_data n = snd (xs ! k))"
proof (induction xs arbitrary: p k)
  case Nil
  then show ?case by simp
next
  case (Cons x xs)
  from Cons.prems(1) obtain n :: node where
    n: "p = fst x" "p \<noteq> 0" "nd p = Some n" "node_data n = snd x" "chain nd (node_next n) xs"
    by (auto simp: chain_def split: option.splits)
  show ?case
  proof (cases k)
    case 0
    with n show ?thesis by auto
  next
    case (Suc j)
    with Cons.prems(2) Cons.IH [OF n(5), of j] show ?thesis by simp
  qed
qed

lemma create_iterator_result:
  assumes "list_at h ll xs"
  shows "linked_list_create_iterator h 0 index m = Inr (0, h) \<and>
         (\<exists>s. linked_list_size h ll = Inr s \<and> unat s = length xs \<and>
            linked_list_create_iterator h ll index m =
              (if index < s \<and> m \<noteq> 0
               then Inr (m, put_iter h m
                              \<lparr>it_ll = ll, it_current_index = index,
                               it_current_node = fst (xs ! unat index),
                               it_data = snd (xs ! unat index)\<rparr>)
               else Inr (0, h)))"
proof -
  from assms(1) obtain l where l: "ll \<noteq> 0" "lists h ll = Some l" "get_list h ll = Inr l"
    "chain (nodes h) (ll_head l) xs" "unat (ll_size l) = length xs"
    by (rule list_atD)
  have sz: "linked_list_size h ll = Inr (ll_size l)"
    using l by (simp add: linked_list_size_def)
  have w: "walk h index (ll_head l) 0 0 =
      Inr (ptr_at xs (unat index), if unat index = 0 then 0 else fst (xs ! (unat index - 1)), index)"
    if "unat index \<le> length xs"
    using walk_chain [OF l(4), of 0 "unat index" index 0] that by simp
  have run: "linked_list_create_iterator h ll index m =
      (if index < ll_size l \<and> m \<noteq> 0
       then Inr (m, put_iter h m
                      \<lparr>it_ll = ll, it_current_index = index,
                       it_current_node = fst (xs ! unat index),
                       it_data = snd (xs ! unat index)\<rparr>)
       else Inr (0, h))"
  proof (cases "index < ll_size l")
    case True
    then have lt: "unat index < length xs"
      using l(5) by (simp add: word_less_nat_alt)
    from chain_nth [OF l(4) lt] obtain n :: node where
      n: "fst (xs ! unat index) \<noteq> 0" "nodes h (fst (xs ! unat index)) = Some n"
         "node_data n = snd (xs ! unat index)"
      by blast
    from True have "\<not> index > ll_size l" by simp
    with True l lt n w show ?thesis
      by (simp add: linked_list_create_iterator_def ptr_at_def get_node_def)
  next
    case False
    show ?thesis
    proof (cases "index > ll_size l")
      case True
      with False l show ?thesis
        by (simp add: linked_list_create_iterator_def)
    next
      case ngt: False
      with False have "index = ll_size l" by simp
      with l(5) have "unat index = length xs" by simp
      with False ngt l w show ?thesis
        by (simp add: linked_list_create_iterator_def ptr_at_def)
    qed
  qed
  have "linked_list_create_iterator h 0 index m = Inr (0, h)"
    by (simp add: linked_list_create_iterator_def)
  with sz l(5) run show ?thesis
    by blast
qed

text \<open>
  Claim C5. \<^verbatim>\<open>linked_list_create_iterator\<close> returns the null pointer on an absent list.
  On a well-formed list with nodes \<open>xs\<close> and size \<open>s\<close> it returns the null pointer and
  leaves the heap unchanged unless \<open>index < s\<close> and the allocator's answer \<open>m\<close> is not
  null: so \<open>index = s\<close> is rejected, also index 0 on the empty list. When \<open>index < s\<close>
  and \<open>m\<close> is not null it returns \<open>m\<close>, and in the heap \<open>h'\<close> after the call the
  iterator stored at \<open>m\<close> has the list \<open>ll\<close>, its \<^verbatim>\<open>current_index\<close> is \<open>index\<close>, its
  \<^verbatim>\<open>current_node\<close> is the address of the node at position \<open>index\<close>, which is live in
  \<open>h'\<close>, and its \<^verbatim>\<open>data\<close> is the data stored in that node. The new iterator is the only
  change: every other iterator, every node and every list header is as before. The
  resulting heap is also given in closed form.
\<close>

theorem create_iterator_spec:
  assumes "list_at h ll xs"
  shows "linked_list_create_iterator h 0 index m = Inr (0, h) \<and>
         (\<exists>s. linked_list_size h ll = Inr s \<and> unat s = length xs \<and>
            linked_list_create_iterator h ll index m =
              (if index < s \<and> m \<noteq> 0
               then Inr (m, put_iter h m
                              \<lparr>it_ll = ll, it_current_index = index,
                               it_current_node = fst (xs ! unat index),
                               it_data = snd (xs ! unat index)\<rparr>)
               else Inr (0, h)) \<and>
            (if index < s \<and> m \<noteq> 0
             then \<exists>h' it n.
                    linked_list_create_iterator h ll index m = Inr (m, h') \<and>
                    iters h' m = Some it \<and>
                    it_ll it = ll \<and>
                    it_current_index it = index \<and>
                    it_current_node it = fst (xs ! unat index) \<and>
                    nodes h' (it_current_node it) = Some n \<and>
                    node_data n = snd (xs ! unat index) \<and>
                    it_data it = node_data n \<and>
                    (\<forall>p. p \<noteq> m \<longrightarrow> iters h' p = iters h p) \<and>
                    nodes h' = nodes h \<and> lists h' = lists h \<and>
                    list_at h' ll xs
             else linked_list_create_iterator h ll index m = Inr (0, h)))"
proof -
  from create_iterator_result [OF assms, of index m] obtain s where
    s: "linked_list_create_iterator h 0 index m = Inr (0, h)"
       "linked_list_size h ll = Inr s" "unat s = length xs"
       "linked_list_create_iterator h ll index m =
          (if index < s \<and> m \<noteq> 0
           then Inr (m, put_iter h m
                          \<lparr>it_ll = ll, it_current_index = index,
                           it_current_node = fst (xs ! unat index),
                           it_data = snd (xs ! unat index)\<rparr>)
           else Inr (0, h))"
    by blast
  define it where "it = \<lparr>it_ll = ll, it_current_index = index,
    it_current_node = fst (xs ! unat index), it_data = snd (xs ! unat index)\<rparr>"
  have "\<exists>h' it n.
          linked_list_create_iterator h ll index m = Inr (m, h') \<and>
          iters h' m = Some it \<and>
          it_ll it = ll \<and>
          it_current_index it = index \<and>
          it_current_node it = fst (xs ! unat index) \<and>
          nodes h' (it_current_node it) = Some n \<and>
          node_data n = snd (xs ! unat index) \<and>
          it_data it = node_data n \<and>
          (\<forall>p. p \<noteq> m \<longrightarrow> iters h' p = iters h p) \<and>
          nodes h' = nodes h \<and> lists h' = lists h \<and>
          list_at h' ll xs"
    if ok: "index < s \<and> m \<noteq> 0"
  proof -
    from ok s(3) have lt: "unat index < length xs"
      by (simp add: word_less_nat_alt)
    from assms obtain l :: linked_list where "chain (nodes h) (ll_head l) xs"
      by (rule list_atD)
    from chain_nth [OF this lt] obtain n :: node where
      n: "nodes h (fst (xs ! unat index)) = Some n" "node_data n = snd (xs ! unat index)"
      by blast
    have run: "linked_list_create_iterator h ll index m = Inr (m, put_iter h m it)"
      using s(4) ok by (simp add: it_def)
    have "iters (put_iter h m it) m = Some it"
      "\<forall>p. p \<noteq> m \<longrightarrow> iters (put_iter h m it) p = iters h p"
      "nodes (put_iter h m it) = nodes h" "lists (put_iter h m it) = lists h"
      by simp_all
    moreover from assms have "list_at (put_iter h m it) ll xs"
      by (auto simp: list_at_def split: option.splits)
    moreover have "it_ll it = ll" "it_current_index it = index"
      "it_current_node it = fst (xs ! unat index)" "it_data it = node_data n"
      using n by (simp_all add: it_def)
    ultimately show ?thesis
      using run n by (intro exI [of _ "put_iter h m it"] exI [of _ it] exI [of _ n]) simp
  qed
  moreover have "linked_list_create_iterator h ll index m = Inr (0, h)"
    if "\<not> (index < s \<and> m \<noteq> 0)"
    using s(4) that by simp
  ultimately have "if index < s \<and> m \<noteq> 0
     then \<exists>h' it n.
            linked_list_create_iterator h ll index m = Inr (m, h') \<and>
            iters h' m = Some it \<and>
            it_ll it = ll \<and>
            it_current_index it = index \<and>
            it_current_node it = fst (xs ! unat index) \<and>
            nodes h' (it_current_node it) = Some n \<and>
            node_data n = snd (xs ! unat index) \<and>
            it_data it = node_data n \<and>
            (\<forall>p. p \<noteq> m \<longrightarrow> iters h' p = iters h p) \<and>
            nodes h' = nodes h \<and> lists h' = lists h \<and>
            list_at h' ll xs
     else linked_list_create_iterator h ll index m = Inr (0, h)"
    unfolding if_bool_eq_conj by blast
  with s show ?thesis
    by blast
qed

text \<open>
  The theorem on the example list at index 1 and at index 3, which is its size, and on
  an empty list at index 0. At index 1 the iterator read back from the heap after the
  call is on the node at address 32 and caches its data 9.
\<close>

theorem create_iterator_spec_witness:
  "list_at example_heap 8 example_chain \<and>
   linked_list_size example_heap 8 = Inr 3 \<and>
   linked_list_create_iterator example_heap 8 1 64 =
     Inr (64, put_iter example_heap 64
                \<lparr>it_ll = 8, it_current_index = 1, it_current_node = 32, it_data = 9\<rparr>) \<and>
   (\<exists>h' it n.
      linked_list_create_iterator example_heap 8 1 64 = Inr (64, h') \<and>
      iters h' 64 = Some it \<and> it_ll it = 8 \<and> it_current_index it = 1 \<and>
      it_current_node it = 32 \<and> nodes h' 32 = Some n \<and> node_data n = 9 \<and>
      it_data it = 9 \<and> iters h' 80 = iters example_heap 80 \<and>
      nodes h' = nodes example_heap \<and> lists h' = lists example_heap) \<and>
   linked_list_create_iterator example_heap 8 3 64 = Inr (0, example_heap) \<and>
   list_at (put_list empty_heap 8 \<lparr>ll_head = 0, ll_size = 0\<rparr>) 8 [] \<and>
   linked_list_create_iterator (put_list empty_heap 8 \<lparr>ll_head = 0, ll_size = 0\<rparr>) 8 0 64 =
     Inr (0, put_list empty_heap 8 \<lparr>ll_head = 0, ll_size = 0\<rparr>)"
proof -
  have s: "linked_list_size example_heap 8 = Inr 3"
    by (simp add: linked_list_size_def get_list_def example_heap_def)
  have e: "list_at (put_list empty_heap 8 \<lparr>ll_head = 0, ll_size = 0\<rparr>) 8 []"
    by (simp add: list_at_def chain_def)
  have x: "fst (example_chain ! unat (1::64 word)) = 32"
    "snd (example_chain ! unat (1::64 word)) = 9"
    by (simp_all add: example_chain_def)
  from create_iterator_spec [OF example_list_at, of 1 64] s x
  have one: "linked_list_create_iterator example_heap 8 1 64 =
       Inr (64, put_iter example_heap 64
                  \<lparr>it_ll = 8, it_current_index = 1, it_current_node = 32, it_data = 9\<rparr>)"
    "\<exists>h' it n.
      linked_list_create_iterator example_heap 8 1 64 = Inr (64, h') \<and>
      iters h' 64 = Some it \<and> it_ll it = 8 \<and> it_current_index it = 1 \<and>
      it_current_node it = 32 \<and> nodes h' 32 = Some n \<and> node_data n = 9 \<and>
      it_data it = 9 \<and> iters h' 80 = iters example_heap 80 \<and>
      nodes h' = nodes example_heap \<and> lists h' = lists example_heap"
    by auto
  from create_iterator_spec [OF example_list_at, of 3 64] s
  have three: "linked_list_create_iterator example_heap 8 3 64 = Inr (0, example_heap)"
    by auto
  from create_iterator_spec [OF e, of 0 64]
  have zero: "linked_list_create_iterator (put_list empty_heap 8 \<lparr>ll_head = 0, ll_size = 0\<rparr>)
       8 0 64 = Inr (0, put_list empty_heap 8 \<lparr>ll_head = 0, ll_size = 0\<rparr>)"
    by (auto simp: unat_eq_zero)
  from one three zero s e example_list_at show ?thesis
    by blast
qed

subsection \<open>Advancing an iterator\<close>

lemma iterate_false_fixed:
  "linked_list_iterate h iter = Inr (False, h') \<Longrightarrow> linked_list_iterate h' iter = Inr (False, h')"
  by (auto simp: linked_list_iterate_def get_iter_def get_node_def
      split: if_splits sum.splits option.splits)

lemma iterate_again_false:
  "linked_list_iterate h iter = Inr (False, h') \<Longrightarrow> iterate_again n h' iter = Inr (False, h')"
  by (induction n) (simp_all add: iterate_false_fixed)

lemma iterate_result:
  assumes "iter \<noteq> 0" "iters h iter = Some it" "chain (nodes h) (it_current_node it) ys"
  shows "linked_list_iterate h 0 = Inr (False, h) \<and>
         linked_list_iterate h iter =
           (case ys of
              [] \<Rightarrow> Inr (False, h)
            | [y] \<Rightarrow> Inr (False, put_iter h iter (it\<lparr>it_current_node := 0\<rparr>))
            | y # z # zs \<Rightarrow>
                Inr (True, put_iter h iter
                             (it\<lparr>it_current_node := fst z,
                                 it_current_index := it_current_index it + 1,
                                 it_data := snd z\<rparr>))) \<and>
         (\<forall>h' n. linked_list_iterate h iter = Inr (False, h') \<longrightarrow>
                 iterate_again n h' iter = Inr (False, h'))"
proof -
  have g: "get_iter h iter = Inr it"
    using assms(1,2) by (simp add: get_iter_def)
  have "linked_list_iterate h iter =
           (case ys of
              [] \<Rightarrow> Inr (False, h)
            | [y] \<Rightarrow> Inr (False, put_iter h iter (it\<lparr>it_current_node := 0\<rparr>))
            | y # z # zs \<Rightarrow>
                Inr (True, put_iter h iter
                             (it\<lparr>it_current_node := fst z,
                                 it_current_index := it_current_index it + 1,
                                 it_data := snd z\<rparr>)))"
  proof (cases ys)
    case Nil
    with assms(3) g assms(1) show ?thesis
      by (simp add: linked_list_iterate_def chain_def)
  next
    case (Cons y ys')
    with assms(3) obtain n :: node where
      n: "it_current_node it = fst y" "fst y \<noteq> 0" "nodes h (fst y) = Some n"
         "chain (nodes h) (node_next n) ys'"
      by (auto simp: chain_def split: option.splits)
    show ?thesis
    proof (cases ys')
      case Nil
      with n have "node_next n = 0" by (simp add: chain_def)
      with n g assms(1) Cons Nil show ?thesis
        by (simp add: linked_list_iterate_def get_node_def)
    next
      case c2: (Cons z zs)
      with n(4) obtain n' :: node where
        n': "node_next n = fst z" "fst z \<noteq> 0" "nodes h (fst z) = Some n'" "node_data n' = snd z"
        by (auto simp: chain_def split: option.splits)
      with n g assms(1) Cons c2 show ?thesis
        by (simp add: linked_list_iterate_def get_node_def)
    qed
  qed
  moreover have "linked_list_iterate h 0 = Inr (False, h)"
    by (simp add: linked_list_iterate_def)
  ultimately show ?thesis
    using iterate_again_false by blast
qed

text \<open>
  Claim C6. \<^verbatim>\<open>linked_list_iterate\<close> returns \<^verbatim>\<open>false\<close> on an absent iterator. For a
  live iterator whose \<^verbatim>\<open>current_node\<close> starts the chain \<open>ys\<close> (the rest of its list),
  the call returns a result \<open>b\<close> and a heap \<open>h'\<close> in which the nodes, the list headers
  and every other iterator are as before, and the iterator read back from \<open>h'\<close> is as
  follows. If \<open>ys\<close> is empty the iterator is past the end already: \<open>b\<close> is \<^verbatim>\<open>false\<close>
  and the iterator is unchanged. If \<open>ys\<close> has one node there is no next node: \<open>b\<close> is
  \<^verbatim>\<open>false\<close>, \<^verbatim>\<open>current_node\<close> is null, and \<^verbatim>\<open>data\<close> and \<^verbatim>\<open>current_index\<close> are
  what they were on the last node. If \<open>ys\<close> has a second node \<open>z\<close>: \<open>b\<close> is \<^verbatim>\<open>true\<close>,
  \<^verbatim>\<open>current_node\<close> is the address of \<open>z\<close>, \<^verbatim>\<open>current_index\<close> is one more, and
  \<^verbatim>\<open>data\<close> is the data stored in the node \<open>z\<close>. So the call returns \<^verbatim>\<open>true\<close> exactly
  when a next node exists. Whenever the call returns \<^verbatim>\<open>false\<close>, every later call on the
  same iterator returns \<^verbatim>\<open>false\<close> too and changes nothing. The resulting heap is also
  given in closed form.
\<close>

theorem iterate_spec:
  assumes "iter \<noteq> 0" "iters h iter = Some it" "chain (nodes h) (it_current_node it) ys"
  shows "linked_list_iterate h 0 = Inr (False, h) \<and>
         linked_list_iterate h iter =
           (case ys of
              [] \<Rightarrow> Inr (False, h)
            | [y] \<Rightarrow> Inr (False, put_iter h iter (it\<lparr>it_current_node := 0\<rparr>))
            | y # z # zs \<Rightarrow>
                Inr (True, put_iter h iter
                             (it\<lparr>it_current_node := fst z,
                                 it_current_index := it_current_index it + 1,
                                 it_data := snd z\<rparr>))) \<and>
         (\<forall>h' n. linked_list_iterate h iter = Inr (False, h') \<longrightarrow>
                 iterate_again n h' iter = Inr (False, h')) \<and>
         (\<exists>b h'. linked_list_iterate h iter = Inr (b, h') \<and>
            nodes h' = nodes h \<and> lists h' = lists h \<and>
            (\<forall>p. p \<noteq> iter \<longrightarrow> iters h' p = iters h p) \<and>
            (case ys of
               [] \<Rightarrow> \<not> b \<and> iters h' iter = Some it
             | [y] \<Rightarrow>
                 \<not> b \<and>
                 (\<exists>it'. iters h' iter = Some it' \<and> it_current_node it' = 0 \<and>
                    it_data it' = it_data it \<and>
                    it_current_index it' = it_current_index it \<and> it_ll it' = it_ll it)
             | y # z # zs \<Rightarrow>
                 b \<and>
                 (\<exists>it' n. iters h' iter = Some it' \<and> it_current_node it' = fst z \<and>
                    it_current_index it' = it_current_index it + 1 \<and>
                    nodes h' (fst z) = Some n \<and> node_data n = snd z \<and>
                    it_data it' = node_data n \<and> it_ll it' = it_ll it)))"
proof -
  note r = iterate_result [OF assms]
  from r have eq: "linked_list_iterate h iter =
           (case ys of
              [] \<Rightarrow> Inr (False, h)
            | [y] \<Rightarrow> Inr (False, put_iter h iter (it\<lparr>it_current_node := 0\<rparr>))
            | y # z # zs \<Rightarrow>
                Inr (True, put_iter h iter
                             (it\<lparr>it_current_node := fst z,
                                 it_current_index := it_current_index it + 1,
                                 it_data := snd z\<rparr>)))"
    by blast
  have "(\<exists>b h'. linked_list_iterate h iter = Inr (b, h') \<and>
    nodes h' = nodes h \<and> lists h' = lists h \<and>
    (\<forall>p. p \<noteq> iter \<longrightarrow> iters h' p = iters h p) \<and>
    (case ys of
       [] \<Rightarrow> \<not> b \<and> iters h' iter = Some it
     | [y] \<Rightarrow>
 \<not> b \<and>
 (\<exists>it'. iters h' iter = Some it' \<and> it_current_node it' = 0 \<and>
    it_data it' = it_data it \<and>
    it_current_index it' = it_current_index it \<and> it_ll it' = it_ll it)
     | y # z # zs \<Rightarrow>
 b \<and>
 (\<exists>it' n. iters h' iter = Some it' \<and> it_current_node it' = fst z \<and>
    it_current_index it' = it_current_index it + 1 \<and>
    nodes h' (fst z) = Some n \<and> node_data n = snd z \<and>
    it_data it' = node_data n \<and> it_ll it' = it_ll it)))"
  proof (cases ys)
    case Nil
    with eq assms(2) show ?thesis
      by (intro exI [of _ False] exI [of _ h]) simp
  next
    case (Cons y ys')
    show ?thesis
    proof (cases ys')
      case Nil
      with eq Cons show ?thesis
        by (intro exI [of _ False]
            exI [of _ "put_iter h iter (it\<lparr>it_current_node := 0\<rparr>)"]) simp
    next
      case c2: (Cons z zs)
      from assms(3) Cons c2 have "chain (nodes h) (it_current_node it) (y # z # zs)"
        by simp
      from chain_nth [OF this, of 1] obtain n :: node where
        n: "nodes h (fst z) = Some n" "node_data n = snd z"
        by auto
      with eq Cons c2 show ?thesis
        by (intro exI [of _ True]
            exI [of _ "put_iter h iter
                         (it\<lparr>it_current_node := fst z,
                             it_current_index := it_current_index it + 1,
                             it_data := snd z\<rparr>)"]) simp
    qed
  qed
  with r show ?thesis
    by blast
qed

text \<open>
  The theorem on the two iterators of the example. The one at index 1 advances: read
  back from the heap after the call, it is on the last node, at index 2, with data 7.
  The one on the last node reaches the end: read back, its node is null and its data
  is still 7; four more calls return \<^verbatim>\<open>false\<close>.
\<close>

lemma iterators_heap_simps:
  "nodes iterators_heap = nodes example_heap"
  "iters iterators_heap 64 =
     Some \<lparr>it_ll = 8, it_current_index = 1, it_current_node = 32, it_data = 9\<rparr>"
  "iters iterators_heap 80 =
     Some \<lparr>it_ll = 8, it_current_index = 2, it_current_node = 48, it_data = 7\<rparr>"
  by (simp_all add: iterators_heap_def)

theorem iterate_spec_witness:
  "iters iterators_heap 64 =
     Some \<lparr>it_ll = 8, it_current_index = 1, it_current_node = 32, it_data = 9\<rparr> \<and>
   chain (nodes iterators_heap) 32 [(32, 9), (48, 7)] \<and>
   linked_list_iterate iterators_heap 64 =
     Inr (True, put_iter iterators_heap 64
                  \<lparr>it_ll = 8, it_current_index = 2, it_current_node = 48, it_data = 7\<rparr>) \<and>
   (\<exists>h' it' n. linked_list_iterate iterators_heap 64 = Inr (True, h') \<and>
      iters h' 64 = Some it' \<and> it_current_node it' = 48 \<and> it_current_index it' = 2 \<and>
      nodes h' 48 = Some n \<and> node_data n = 7 \<and> it_data it' = 7 \<and>
      iters h' 80 = iters iterators_heap 80 \<and> nodes h' = nodes iterators_heap \<and>
      lists h' = lists iterators_heap) \<and>
   iters iterators_heap 80 =
     Some \<lparr>it_ll = 8, it_current_index = 2, it_current_node = 48, it_data = 7\<rparr> \<and>
   chain (nodes iterators_heap) 48 [(48, 7)] \<and>
   linked_list_iterate iterators_heap 80 =
     Inr (False, put_iter iterators_heap 80
                   \<lparr>it_ll = 8, it_current_index = 2, it_current_node = 0, it_data = 7\<rparr>) \<and>
   (\<exists>h' it'. linked_list_iterate iterators_heap 80 = Inr (False, h') \<and>
      iters h' 80 = Some it' \<and> it_current_node it' = 0 \<and> it_current_index it' = 2 \<and>
      it_data it' = 7 \<and> iters h' 64 = iters iterators_heap 64 \<and>
      nodes h' = nodes iterators_heap \<and> lists h' = lists iterators_heap \<and>
      iterate_again 4 h' 80 = Inr (False, h'))"
proof -
  have c1: "chain (nodes iterators_heap) 32 [(32, 9), (48, 7)]"
    and c2: "chain (nodes iterators_heap) 48 [(48, 7)]"
    by (simp_all add: iterators_heap_simps chain_def example_heap_def)
  have nz: "(64::ptr) \<noteq> 0" "(80::ptr) \<noteq> 0"
    by simp_all
  have d1: "chain (nodes iterators_heap)
      (it_current_node \<lparr>it_ll = 8, it_current_index = 1, it_current_node = 32, it_data = 9\<rparr>)
      [(32, 9), (48, 7)]"
    and d2: "chain (nodes iterators_heap)
      (it_current_node \<lparr>it_ll = 8, it_current_index = 2, it_current_node = 48, it_data = 7\<rparr>)
      [(48, 7)]"
    using c1 c2 by simp_all
  note a = iterate_spec [OF nz(1) iterators_heap_simps(2) d1]
  note b = iterate_spec [OF nz(2) iterators_heap_simps(3) d2]
  from a have a1: "linked_list_iterate iterators_heap 64 =
     Inr (True, put_iter iterators_heap 64
                  \<lparr>it_ll = 8, it_current_index = 2, it_current_node = 48, it_data = 7\<rparr>)"
    by simp
  from a have a2: "\<exists>h' it' n. linked_list_iterate iterators_heap 64 = Inr (True, h') \<and>
      iters h' 64 = Some it' \<and> it_current_node it' = 48 \<and> it_current_index it' = 2 \<and>
      nodes h' 48 = Some n \<and> node_data n = 7 \<and> it_data it' = 7 \<and>
      iters h' 80 = iters iterators_heap 80 \<and> nodes h' = nodes iterators_heap \<and>
      lists h' = lists iterators_heap"
    by auto
  from b have b1: "linked_list_iterate iterators_heap 80 =
     Inr (False, put_iter iterators_heap 80
                   \<lparr>it_ll = 8, it_current_index = 2, it_current_node = 0, it_data = 7\<rparr>)"
    by simp
  from b have b2: "\<exists>h' it'. linked_list_iterate iterators_heap 80 = Inr (False, h') \<and>
      iters h' 80 = Some it' \<and> it_current_node it' = 0 \<and> it_current_index it' = 2 \<and>
      it_data it' = 7 \<and> iters h' 64 = iters iterators_heap 64 \<and>
      nodes h' = nodes iterators_heap \<and> lists h' = lists iterators_heap \<and>
      iterate_again 4 h' 80 = Inr (False, h')"
    by auto
  from a1 a2 b1 b2 c1 c2 iterators_heap_simps(2,3) show ?thesis
    by blast
qed

subsection \<open>Searching a value\<close>

lemma find_loop_chain:
  "chain (nodes h) p xs \<Longrightarrow> unat idx + length xs < 2 ^ 64 \<Longrightarrow>
   find_loop h d p idx =
     Some (Inr (if d \<in> snd ` set xs
                then idx + of_nat (length (takeWhile (\<lambda>x. snd x \<noteq> d) xs))
                else SIZE_MAX))"
proof (induction xs arbitrary: p idx)
  case Nil
  then show ?case
    by (subst find_loop.simps) (simp add: chain_def)
next
  case (Cons x xs)
  from Cons.prems(1) obtain n :: node where
    n: "p = fst x" "p \<noteq> 0" "nodes h p = Some n" "node_data n = snd x"
       "chain (nodes h) (node_next n) xs"
    by (auto simp: chain_def split: option.splits)
  show ?case
  proof (cases "snd x = d")
    case True
    with n show ?thesis
      by (subst find_loop.simps) (simp add: get_node_def)
  next
    case False
    from Cons.prems(2) have "Suc (unat idx) < 2 ^ 64" by simp
    then have step: "unat (idx + 1) = Suc (unat idx)"
      by (rule unat_plus1)
    have "find_loop h d p idx = find_loop h d (node_next n) (idx + 1)"
      using n False by (subst find_loop.simps) (simp add: get_node_def)
    also have "\<dots> = Some (Inr (if d \<in> snd ` set xs
                then idx + 1 + of_nat (length (takeWhile (\<lambda>x. snd x \<noteq> d) xs))
                else SIZE_MAX))"
      using Cons.prems(2) step by (intro Cons.IH n) simp
    finally show ?thesis
      using False by (simp add: add.assoc)
  qed
qed

lemma takeWhile_first:
  assumes "d \<in> snd ` set xs"
  defines "k \<equiv> length (takeWhile (\<lambda>x. snd x \<noteq> d) xs)"
  shows "k < length xs" "snd (xs ! k) = d" "\<forall>j < k. snd (xs ! j) \<noteq> d"
proof -
  from assms(1) show lt: "k < length xs"
    unfolding k_def by (induction xs) auto
  from nth_length_takeWhile [OF lt [unfolded k_def]] show "snd (xs ! k) = d"
    by (simp add: k_def)
  show "\<forall>j < k. snd (xs ! j) \<noteq> d"
  proof (intro allI impI)
    fix j assume j: "j < k"
    then have "takeWhile (\<lambda>x. snd x \<noteq> d) xs ! j = xs ! j"
      unfolding k_def by (rule takeWhile_nth)
    moreover from j have "takeWhile (\<lambda>x. snd x \<noteq> d) xs ! j \<in> set (takeWhile (\<lambda>x. snd x \<noteq> d) xs)"
      unfolding k_def by (rule nth_mem)
    ultimately show "snd (xs ! j) \<noteq> d"
      using set_takeWhileD by fastforce
  qed
qed

text \<open>
  Claim C7. \<^verbatim>\<open>linked_list_find\<close> returns \<open>SIZE_MAX\<close>, the largest value of
  \<^verbatim>\<open>size_t\<close>, on an absent list. On a well-formed list with nodes \<open>xs\<close> it returns, and
  the heap is unchanged; when some node holds the value \<open>d\<close>, the result \<open>r\<close> is an
  index of the list, the node at \<open>r\<close> holds \<open>d\<close> and no node at a lower index does;
  when no node holds \<open>d\<close>, the result is \<open>SIZE_MAX\<close>.
\<close>

theorem find_spec:
  assumes "list_at h ll xs"
  shows "linked_list_find h 0 d = Some (Inr (SIZE_MAX, h)) \<and> unat SIZE_MAX = 2 ^ 64 - 1 \<and>
         (\<exists>r. linked_list_find h ll d = Some (Inr (r, h)) \<and>
            (if d \<in> snd ` set xs
             then unat r < length xs \<and> snd (xs ! unat r) = d \<and>
                  (\<forall>j < unat r. snd (xs ! j) \<noteq> d)
             else r = SIZE_MAX))"
proof -
  from assms(1) obtain l where l: "ll \<noteq> 0" "lists h ll = Some l" "get_list h ll = Inr l"
    "chain (nodes h) (ll_head l) xs" "unat (ll_size l) = length xs"
    by (rule list_atD)
  define k where "k = length (takeWhile (\<lambda>x. snd x \<noteq> d) xs)"
  define r :: size_t where "r = (if d \<in> snd ` set xs then of_nat k else SIZE_MAX)"
  have len: "length xs < 2 ^ 64"
    using l(4) by (rule chain_length)
  then have "find_loop h d (ll_head l) 0 = Some (Inr r)"
    using find_loop_chain [OF l(4), of 0 d] by (simp add: r_def k_def)
  with l have run: "linked_list_find h ll d = Some (Inr (r, h))"
    by (simp add: linked_list_find_def)
  have "unat r < length xs \<and> snd (xs ! unat r) = d \<and> (\<forall>j < unat r. snd (xs ! j) \<noteq> d)"
    if "d \<in> snd ` set xs"
  proof -
    note tw = takeWhile_first [OF that, folded k_def]
    from tw(1) len have "k < 2 ^ 64" by simp
    then have "unat r = k"
      using that by (simp add: r_def unat_of_nat)
    with tw show ?thesis by simp
  qed
  moreover have "r = SIZE_MAX" if "d \<notin> snd ` set xs"
    using that by (simp add: r_def)
  moreover have "linked_list_find h 0 d = Some (Inr (SIZE_MAX, h))"
    by (simp add: linked_list_find_def)
  moreover have "unat SIZE_MAX = 2 ^ 64 - 1"
    by (simp add: SIZE_MAX_def unsigned_minus_1_eq_mask mask_eq_exp_minus_1)
  ultimately show ?thesis
    using run by auto
qed

text \<open>
  The theorem on the example list: 7 is at the indices 0 and 2, 9 at index 1, and 5 is
  not in the list.
\<close>

theorem find_spec_witness:
  "list_at example_heap 8 example_chain \<and>
   linked_list_find example_heap 8 7 = Some (Inr (0, example_heap)) \<and>
   linked_list_find example_heap 8 9 = Some (Inr (1, example_heap)) \<and>
   linked_list_find example_heap 8 5 = Some (Inr (SIZE_MAX, example_heap))"
proof -
  have "linked_list_find example_heap 8 7 = Some (Inr (0, example_heap))"
    "linked_list_find example_heap 8 9 = Some (Inr (1, example_heap))"
    by (simp_all add: linked_list_find_def find_loop.simps get_list_def get_node_def
        example_heap_def)
  moreover have "linked_list_find example_heap 8 5 = Some (Inr (SIZE_MAX, example_heap))"
    using find_spec [OF example_list_at, of 5]
    by (auto simp: example_chain_def)
  ultimately show ?thesis
    using example_list_at by simp
qed

end
